theory Spec2Isabelle
  imports Complex_Main "HOL-Library.Word" "HOL-Library.Signed_Division" "HOL-Library.Log_Nat"
begin

section \<open>The stats collector of stats/collector.go\<close>

text \<open>
  The collector keeps per-worker counters in a map guarded by a mutex and, once per minute,
  turns them into rows of a write batch for the database. This theory embeds
  \<^verbatim>\<open>NewCollector\<close>, \<^verbatim>\<open>Init\<close>, \<^verbatim>\<open>Clear\<close>, \<^verbatim>\<open>Stop\<close> and the loop of \<^verbatim>\<open>Run\<close>.

  Conventions of the embedding:
  \<^item> \<^verbatim>\<open>uint64\<close> is \<open>64 word\<close>; \<^verbatim>\<open>int64\<close> Unix seconds are \<open>int\<close>, with Go's
    division that truncates towards zero (\<open>sdiv\<close>); \<open>t / 60 * 60\<close> cannot overflow, its
    magnitude never exceeds that of \<open>t\<close>.
  \<^item> A \<^verbatim>\<open>float64\<close> is the real number it stands for, and every conversion and operation
    rounds its exact result to 53 significant bits, ties to even.
  \<^item> The Go map \<^verbatim>\<open>PendingStats\<close> is an association list; its order stands for the order in
    which \<^verbatim>\<open>range\<close> visits the entries, which Go leaves unspecified.
  \<^item> The mutex \<^verbatim>\<open>Mux\<close> is modelled by atomicity: a section of code between \<^verbatim>\<open>Lock\<close> and
    \<^verbatim>\<open>Unlock\<close> is one step, and calls of other goroutines happen between steps.
  \<^item> The wall clock, and whether a database call fails, belong to the environment.
  \<^item> The database handle and the wait group are collaborators outside this file; the calls
    made to the database are kept as a trace.
\<close>

type_synonym uint64 = "64 word"

definition statCollectionPeriodSecs :: int where
  "statCollectionPeriodSecs = 60"

definition keepStatsForSecs :: int where
  "keepStatsForSecs = 86400"

subsection \<open>float64\<close>

text \<open>
  A finite \<^verbatim>\<open>float64\<close> is modelled by the real number it stands for. The result of a
  conversion or of an operation is the exact result rounded to the nearest number with 53
  significant bits, ties going to the even significand, as IEEE 754 and Go prescribe. The
  exponent is left unbounded: the numbers of this program are products of two machine
  integers, so below \<open>2^128\<close>, their quotients by 60 and sums of those, far from overflow
  and from the subnormal numbers.
\<close>

type_synonym float64 = real

text \<open>The nearest integer, the even one of two that are equally near.\<close>

definition round_even :: "real \<Rightarrow> int" where
  "round_even y =
     (let q = \<lfloor>y\<rfloor>; f = y - of_int q
      in if f < 1 / 2 then q else if 1 / 2 < f then q + 1 else if even q then q else q + 1)"

text \<open>
  The exponent of the last of the 53 bits of a positive number \<open>a\<close>: with \<open>k\<close> this
  exponent, \<open>a / 2^k\<close> lies between \<open>2^52\<close> and \<open>2^53\<close>.
\<close>

definition exponent64 :: "real \<Rightarrow> int" where
  "exponent64 a = (if 1 \<le> a then bitlen \<lfloor>a\<rfloor> - 53 else - bitlen \<lfloor>1 / a\<rfloor> - 52)"

definition round64 :: "real \<Rightarrow> float64" where
  "round64 x =
     (if x = 0 then 0
      else let k = exponent64 \<bar>x\<bar>
           in sgn x * of_int (round_even (\<bar>x\<bar> / 2 powi k)) * 2 powi k)"

text \<open>The conversion \<^verbatim>\<open>float64(n)\<close> of an unsigned integer, and the operations of Go on \<^verbatim>\<open>float64\<close>.\<close>

definition f64_of_nat :: "nat \<Rightarrow> float64" where
  "f64_of_nat n = round64 (real n)"

definition fmul :: "float64 \<Rightarrow> float64 \<Rightarrow> float64" where
  "fmul a b = round64 (a * b)"

definition fdiv :: "float64 \<Rightarrow> float64 \<Rightarrow> float64" where
  "fdiv a b = round64 (a / b)"

definition fadd :: "float64 \<Rightarrow> float64 \<Rightarrow> float64" where
  "fadd a b = round64 (a + b)"

subsection \<open>Data\<close>

text \<open>
  Modelled from the spec: the declaration of \<^verbatim>\<open>PendingStat\<close> is in another file of package
  \<^verbatim>\<open>stats\<close>. The fields are the ones \<^verbatim>\<open>Run\<close> reads; the counters are non-negative integers,
  in the code machine integers below \<open>2^64\<close>.
\<close>

record PendingStat =
  ValidShares :: nat
  StaleShares :: nat
  InvalidShares :: nat
  ReportedHashrate :: float64
  IPAddress :: string

text \<open>
  Modelled from the spec: \<^verbatim>\<open>db.Stat\<close> is declared in package \<^verbatim>\<open>db\<close>. The fields are the ones
  \<^verbatim>\<open>Run\<close> fills.
\<close>

record Stat =
  WorkerName :: string
  ValidShareCount :: nat
  StaleShareCount :: nat
  InvalidShareCount :: nat
  StatReportedHashrate :: float64
  EffectiveHashrate :: float64
  StatIPAddress :: string

text \<open>
  Modelled from the spec: \<^verbatim>\<open>db.WriteStatToBatch\<close> is in package \<^verbatim>\<open>db\<close>; it puts one row, the
  stat under its timestamp, into the batch. A batch is the sequence of the rows put into it.
\<close>

type_synonym batch = "(Stat \<times> int) list"

text \<open>
  The collector object. \<open>ContextDone\<close> says that the context has been cancelled, so that
  \<^verbatim>\<open>c.Context.Done()\<close> is ready to receive from.
\<close>

record Collector =
  PendingStats :: "(string \<times> PendingStat) list"
  ShareDifficulty :: uint64
  ContextDone :: bool

subsection \<open>Init, Clear, NewCollector, Stop\<close>

definition Init :: "Collector \<Rightarrow> Collector" where
  "Init c = c\<lparr>PendingStats := []\<rparr>"

text \<open>\<^verbatim>\<open>Clear\<close> deletes the keys one by one, under the lock.\<close>

fun delete_all :: "(string \<times> PendingStat) list \<Rightarrow> (string \<times> PendingStat) list \<Rightarrow>
    (string \<times> PendingStat) list" where
  "delete_all [] m = m"
| "delete_all ((k, v) # ks) m = delete_all ks (filter (\<lambda>e. fst e \<noteq> k) m)"

definition Clear :: "Collector \<Rightarrow> Collector" where
  "Clear c = c\<lparr>PendingStats := delete_all (PendingStats c) (PendingStats c)\<rparr>"

text \<open>
  \<^verbatim>\<open>NewCollector\<close> returns a pointer; \<open>None\<close> would be the nil pointer. The function has no
  error result and no check of its argument.
\<close>

definition NewCollector :: "uint64 \<Rightarrow> Collector option" where
  "NewCollector shareDifficulty =
     Some (Init \<lparr>PendingStats = [], ShareDifficulty = shareDifficulty, ContextDone = False\<rparr>)"

text \<open>\<^verbatim>\<open>Stop\<close> calls the cancel function of the context.\<close>

definition Stop :: "Collector \<Rightarrow> Collector" where
  "Stop c = c\<lparr>ContextDone := True\<rparr>"

text \<open>
  Modelled from the spec: \<^verbatim>\<open>Record\<close> is in another file of package \<^verbatim>\<open>stats\<close>. It merges into
  the worker's entry under the lock: counters are summed, the reported hashrate and the
  address are overwritten, and the entry is created if absent.
\<close>

fun merge_stat :: "(string \<times> PendingStat) list \<Rightarrow> string \<Rightarrow> PendingStat \<Rightarrow>
    (string \<times> PendingStat) list" where
  "merge_stat [] w d = [(w, d)]"
| "merge_stat ((k, p) # rest) w d =
     (if k = w
      then (k, \<lparr>ValidShares = ValidShares p + ValidShares d,
                StaleShares = StaleShares p + StaleShares d,
                InvalidShares = InvalidShares p + InvalidShares d,
                ReportedHashrate = ReportedHashrate d,
                IPAddress = IPAddress d\<rparr>) # rest
      else (k, p) # merge_stat rest w d)"

definition Record :: "Collector \<Rightarrow> string \<Rightarrow> PendingStat \<Rightarrow> Collector" where
  "Record c w d = c\<lparr>PendingStats := merge_stat (PendingStats c) w d\<rparr>"

subsection \<open>The loop of Run\<close>

text \<open>\<^verbatim>\<open>time.Now().Unix() / statCollectionPeriodSecs * statCollectionPeriodSecs\<close>\<close>

definition bucket :: "int \<Rightarrow> int" where
  "bucket now = now sdiv statCollectionPeriodSecs * statCollectionPeriodSecs"

text \<open>
  The environment: \<open>clock n\<close> is what the \<open>n\<close>-th call of \<^verbatim>\<open>time.Now().Unix()\<close> returns, and
  \<open>db_fails n\<close> says whether the \<open>n\<close>-th call to the database fails.
\<close>

record env =
  clock :: "nat \<Rightarrow> int"
  db_fails :: "nat \<Rightarrow> bool"

datatype log_entry = Started | Stopped | Collected float64

datatype db_call = Write batch bool | PruneStats int bool

text \<open>
  Where the goroutine of \<^verbatim>\<open>Run\<close> stands: at the \<^verbatim>\<open>select\<close> (\<open>Poll\<close>), before the
  \<^verbatim>\<open>time.Sleep\<close>, before the locked \<^verbatim>\<open>range\<close> loop, before \<^verbatim>\<open>c.Clear()\<close>, before the write,
  or returned.
\<close>

datatype pc = Poll | Sleeping | Collecting | Clearing | Persisting | Returned

text \<open>
  The state of a run: the collector, the local variables of \<^verbatim>\<open>Run\<close>, the number of clock
  reads so far, and what the run has done: its log, its database calls, the seconds slept,
  the clock readings of the polls and the boundaries for which a flush was started.
\<close>

record run =
  collector :: Collector
  at_pc :: pc
  prevCollectionTimestamp :: int
  totalCollectedHashrate :: float64
  batch :: batch
  reads :: nat
  logs :: "log_entry list"
  db_calls :: "db_call list"
  slept :: nat
  polled :: "int list"
  flushed :: "int list"

text \<open>Lines 65 to 74: the first clock read, the log entry, the zero total.\<close>

definition Run_start :: "env \<Rightarrow> Collector \<Rightarrow> run" where
  "Run_start e c =
     \<lparr>collector = c, at_pc = Poll, prevCollectionTimestamp = bucket (clock e 0),
      totalCollectedHashrate = 0, batch = [], reads = 1, logs = [Started], db_calls = [],
      slept = 0, polled = [], flushed = []\<rparr>"

text \<open>Lines 77 to 90: the \<^verbatim>\<open>select\<close>, the clock read and the comparison.\<close>

definition poll :: "env \<Rightarrow> run \<Rightarrow> run" where
  "poll e s =
     (if ContextDone (collector s) then s\<lparr>at_pc := Returned, logs := logs s @ [Stopped]\<rparr>
      else
        let now = clock e (reads s);
            currentCollectionTimestamp = bucket now;
            s1 = s\<lparr>reads := Suc (reads s), polled := polled s @ [now]\<rparr>
        in if prevCollectionTimestamp s = currentCollectionTimestamp
           then s1\<lparr>at_pc := Sleeping\<rparr>
           else s1\<lparr>at_pc := Collecting, prevCollectionTimestamp := currentCollectionTimestamp,
                   flushed := flushed s @ [currentCollectionTimestamp]\<rparr>)"

text \<open>Line 86.\<close>

definition sleep :: "run \<Rightarrow> run" where
  "sleep s = s\<lparr>at_pc := Poll, slept := Suc (slept s)\<rparr>"

text \<open>
  Lines 95 to 109: the body of the \<^verbatim>\<open>range\<close> loop reads the clock, computes the stat and puts
  it into the batch. The result is the number of clock reads, the total and the batch.
\<close>

definition make_stat :: "uint64 \<Rightarrow> string \<Rightarrow> PendingStat \<Rightarrow> Stat" where
  "make_stat shareDifficulty workerName pendingStat =
     (let effectiveHashrate =
            fmul (f64_of_nat (ValidShares pendingStat)) (f64_of_nat (unat shareDifficulty))
      in \<lparr>WorkerName = workerName,
          ValidShareCount = ValidShares pendingStat,
          StaleShareCount = StaleShares pendingStat,
          InvalidShareCount = InvalidShares pendingStat,
          StatReportedHashrate = ReportedHashrate pendingStat,
          EffectiveHashrate = effectiveHashrate,
          StatIPAddress = IPAddress pendingStat\<rparr>)"

fun collect :: "(nat \<Rightarrow> int) \<Rightarrow> uint64 \<Rightarrow> (string \<times> PendingStat) list \<Rightarrow>
    nat \<times> float64 \<times> batch \<Rightarrow> nat \<times> float64 \<times> batch" where
  "collect clk d [] acc = acc"
| "collect clk d ((workerName, pendingStat) # rest) (r, tot, b) =
     (let timestamp = bucket (clk r);
          stat = make_stat d workerName pendingStat;
          tot' = fadd tot (fdiv (EffectiveHashrate stat) (real_of_int statCollectionPeriodSecs))
      in collect clk d rest (Suc r, tot', b @ [(stat, timestamp)]))"

text \<open>Lines 92 to 110: a new batch, filled under the lock.\<close>

definition collecting :: "env \<Rightarrow> run \<Rightarrow> run" where
  "collecting e s =
     (case collect (clock e) (ShareDifficulty (collector s)) (PendingStats (collector s))
             (reads s, totalCollectedHashrate s, []) of
        (r, tot, b) \<Rightarrow>
          s\<lparr>at_pc := Clearing, reads := r, totalCollectedHashrate := tot, batch := b\<rparr>)"

text \<open>Line 112.\<close>

definition clearing :: "run \<Rightarrow> run" where
  "clearing s = s\<lparr>at_pc := Persisting, collector := Clear (collector s)\<rparr>"

text \<open>
  Lines 114 to 122: the write, whose result is dropped, the log entry, the reset of the
  total, and the pruning. The log entry carries the total that is handed to the formatter.
\<close>

definition persisting :: "env \<Rightarrow> run \<Rightarrow> run" where
  "persisting e s =
     (let n = length (db_calls s)
      in s\<lparr>at_pc := Poll,
           db_calls := db_calls s @ [Write (batch s) (db_fails e n),
                                     PruneStats keepStatsForSecs (db_fails e (Suc n))],
           logs := logs s @ [Collected (totalCollectedHashrate s)],
           totalCollectedHashrate := 0\<rparr>)"

text \<open>One step of the goroutine of \<^verbatim>\<open>Run\<close>.\<close>

definition flusher :: "env \<Rightarrow> run \<Rightarrow> run" where
  "flusher e s =
     (case at_pc s of
        Poll \<Rightarrow> poll e s
      | Sleeping \<Rightarrow> sleep s
      | Collecting \<Rightarrow> collecting e s
      | Clearing \<Rightarrow> clearing s
      | Persisting \<Rightarrow> persisting e s
      | Returned \<Rightarrow> s)"

text \<open>
  What the other goroutines do to the collector: a producer completes a call of \<^verbatim>\<open>Record\<close>, or
  somebody calls \<^verbatim>\<open>Stop\<close>.
\<close>

datatype call = RecordCall string PendingStat | StopCall

fun apply_call :: "Collector \<Rightarrow> call \<Rightarrow> Collector" where
  "apply_call c (RecordCall w d) = Record c w d"
| "apply_call c StopCall = Stop c"

text \<open>What can happen next: the goroutine of \<^verbatim>\<open>Run\<close> takes a step, or one of these calls.\<close>

datatype event = Flusher | Call call

fun step :: "env \<Rightarrow> run \<Rightarrow> event \<Rightarrow> run" where
  "step e s Flusher = flusher e s"
| "step e s (Call k) = s\<lparr>collector := apply_call (collector s) k\<rparr>"

text \<open>A run of the program: \<^verbatim>\<open>Run\<close> is started on the collector, then the events happen in order.\<close>

definition execute :: "env \<Rightarrow> Collector \<Rightarrow> event list \<Rightarrow> run" where
  "execute e c evs = foldl (step e) (Run_start e c) evs"

subsection \<open>Invariants of a run\<close>

text \<open>
  The flushes started so far are the changes of bucket in the sequence of clock readings
  made of the first one and of those of the polls, and the marker is the bucket of the last
  of these readings.
\<close>

definition crossing_inv :: "env \<Rightarrow> run \<Rightarrow> bool" where
  "crossing_inv e s \<longleftrightarrow>
     flushed s = tl (remdups_adj (map bucket (clock e 0 # polled s))) \<and>
     prevCollectionTimestamp s = bucket (last (clock e 0 # polled s))"

text \<open>The polls read the clock one after another.\<close>

definition polled_inv :: "env \<Rightarrow> run \<Rightarrow> bool" where
  "polled_inv e s \<longleftrightarrow>
     (\<exists>ks. polled s = map (clock e) ks \<and> sorted ks \<and> (\<forall>k\<in>set ks. k < reads s))"

text \<open>The database calls that a flush under way still has to make.\<close>

definition pending_calls :: "run \<Rightarrow> nat" where
  "pending_calls s = (if at_pc s \<in> {Collecting, Clearing, Persisting} then 2 else 0)"

text \<open>
  Every row of the batch in hand and of the batches handed to the database so far satisfies
  \<open>P\<close>, and the share difficulty is \<open>d\<close>.
\<close>

definition rows_inv :: "(Stat \<times> int \<Rightarrow> bool) \<Rightarrow> uint64 \<Rightarrow> run \<Rightarrow> bool" where
  "rows_inv P d s \<longleftrightarrow>
     ShareDifficulty (collector s) = d \<and> list_all P (batch s) \<and>
     list_all (\<lambda>call. case call of Write b f \<Rightarrow> list_all P b | PruneStats h f \<Rightarrow> True) (db_calls s)"

text \<open>
  What line 98 adds to the total for one entry, and the \<^verbatim>\<open>float64\<close> sum of a list taken from
  the left, starting from zero, as the range loop takes it.
\<close>

definition worker_hashrate :: "uint64 \<Rightarrow> PendingStat \<Rightarrow> float64" where
  "worker_hashrate d p =
     fdiv (fmul (f64_of_nat (ValidShares p)) (f64_of_nat (unat d)))
       (real_of_int statCollectionPeriodSecs)"

definition f64_sum :: "float64 list \<Rightarrow> float64" where
  "f64_sum xs = foldl fadd 0 xs"

text \<open>The factors between which one rounding keeps a number that is not negative.\<close>

definition round_lo :: real where
  "round_lo = 1 - 1 / 2 ^ 53"

definition round_hi :: real where
  "round_hi = 1 + 1 / 2 ^ 53"

text \<open>A database call without its outcome.\<close>

definition call_made :: "db_call \<Rightarrow> db_call" where
  "call_made call = (case call of Write b f \<Rightarrow> Write b False | PruneStats h f \<Rightarrow> PruneStats h False)"

subsection \<open>Example inputs\<close>

text \<open>A clock that advances five seconds from one reading to the next, and a database that works.\<close>

definition ex_clock :: "nat \<Rightarrow> int" where
  "ex_clock n = 1010 + 5 * int n"

definition ex_env :: env where
  "ex_env = \<lparr>clock = ex_clock, db_fails = (\<lambda>n. False)\<rparr>"

text \<open>The scenario of the specification: difficulty 1000, and ten valid shares of worker rig1.\<close>

definition rig1 :: PendingStat where
  "rig1 = \<lparr>ValidShares = 10, StaleShares = 0, InvalidShares = 0, ReportedHashrate = 500,
      IPAddress = ''1.2.3.4''\<rparr>"

definition ex_collector :: Collector where
  "ex_collector = \<lparr>PendingStats = [], ShareDifficulty = 1000, ContextDone = False\<rparr>"

text \<open>
  A run that is held up for a minute between the poll and the range loop, waiting for the
  mutex or suspended by the host.
\<close>

definition late_clock :: "nat \<Rightarrow> int" where
  "late_clock n = (if n = 0 then 1130 else if n = 1 then 1140 else 1197 + int n)"

definition late_env :: env where
  "late_env = \<lparr>clock = late_clock, db_fails = (\<lambda>n. False)\<rparr>"

text \<open>A second worker.\<close>

definition rig2 :: PendingStat where
  "rig2 = \<lparr>ValidShares = 3, StaleShares = 1, InvalidShares = 0, ReportedHashrate = 200,
      IPAddress = ''5.6.7.8''\<rparr>"

text \<open>The same clock, and a database of which every call fails.\<close>

definition failing_env :: env where
  "failing_env = \<lparr>clock = ex_clock, db_fails = (\<lambda>n. True)\<rparr>"

text \<open>Five more valid shares of rig1.\<close>

definition rig1_more :: PendingStat where
  "rig1_more = \<lparr>ValidShares = 5, StaleShares = 0, InvalidShares = 0, ReportedHashrate = 500,
      IPAddress = ''1.2.3.4''\<rparr>"

text \<open>
  A producer records for rig1; the loop polls, sleeps, polls again and sees the boundary
  1020; it fills the batch and unlocks; the producer records five more shares; the loop
  clears the map and writes. Then the loop polls and sleeps until it sees the boundary 1080
  and flushes again.
\<close>

definition lost_schedule :: "event list" where
  "lost_schedule =
     [Call (RecordCall ''rig1'' rig1), Flusher, Flusher, Flusher, Flusher,
      Call (RecordCall ''rig1'' rig1_more), Flusher, Flusher,
      Flusher, Flusher, Flusher, Flusher, Flusher, Flusher, Flusher, Flusher, Flusher, Flusher,
      Flusher, Flusher, Flusher, Flusher, Flusher, Flusher, Flusher, Flusher, Flusher, Flusher,
      Flusher, Flusher, Flusher, Flusher]"

text \<open>
  A producer records for rig1; the loop polls, sleeps, polls again and sees the boundary
  1020; it fills the batch and unlocks; then a producer records for rig2.
\<close>

definition gap_schedule :: "event list" where
  "gap_schedule =
     [Call (RecordCall ''rig1'' rig1), Flusher, Flusher, Flusher, Flusher,
      Call (RecordCall ''rig2'' rig2)]"

text \<open>
  After that the loop clears the map and writes, and polls and sleeps until it sees the
  boundary 1080 and flushes again.
\<close>

definition erased_schedule :: "event list" where
  "erased_schedule = gap_schedule @
     [Flusher, Flusher,
      Flusher, Flusher, Flusher, Flusher, Flusher, Flusher, Flusher, Flusher, Flusher, Flusher,
      Flusher, Flusher, Flusher, Flusher, Flusher, Flusher, Flusher, Flusher, Flusher, Flusher,
      Flusher, Flusher, Flusher, Flusher]"

section \<open>Properties\<close>

subsection \<open>Rounding\<close>

lemma round_even_near: "\<bar>of_int (round_even y) - y\<bar> \<le> 1 / 2"
proof -
  have "0 \<le> y - of_int \<lfloor>y\<rfloor>" "y - of_int \<lfloor>y\<rfloor> < 1" by linarith+
  then show ?thesis by (auto simp: round_even_def Let_def)
qed

lemma round_even_of_int: "round_even (of_int z) = z"
  by (simp add: round_even_def)

lemma round_even_nonneg: "0 \<le> y \<Longrightarrow> 0 \<le> round_even y"
  by (auto simp: round_even_def Let_def)

lemma bitlen_real_bounds:
  assumes "1 \<le> n"
  shows "2 powi (bitlen n - 1) \<le> real_of_int n" and "real_of_int n + 1 \<le> 2 powi (bitlen n)"
proof -
  have pos: "0 < n" using assms by simp
  have b: "2 ^ nat (bitlen n - 1) \<le> n" "n < 2 ^ nat (bitlen n)"
    using bitlen_bounds [OF pos] by simp_all
  have b1: "1 \<le> bitlen n" using pos bitlen_ge_iff_power [of 1 n] by simp
  have "real_of_int (2 ^ nat (bitlen n - 1)) \<le> real_of_int n" using b(1) by linarith
  then show "2 powi (bitlen n - 1) \<le> real_of_int n"
    using b1 by (simp add: power_int_def)
  have "n + 1 \<le> 2 ^ nat (bitlen n)" using b(2) by simp
  then have "real_of_int (n + 1) \<le> real_of_int (2 ^ nat (bitlen n))" by linarith
  then show "real_of_int n + 1 \<le> 2 powi (bitlen n)"
    using b1 by (simp add: power_int_def)
qed

lemma exponent64_range:
  assumes "0 < a"
  shows "2 ^ 52 * 2 powi (exponent64 a) \<le> a \<and> a \<le> 2 ^ 53 * 2 powi (exponent64 a)"
proof -
  have shift: "2 ^ n * 2 powi k = (2::real) powi (int n + k)" for n k
    by (simp add: power_int_add)
  show ?thesis
  proof (cases "1 \<le> a")
    case True
    then have n: "1 \<le> \<lfloor>a\<rfloor>" by simp
    have "2 powi (bitlen \<lfloor>a\<rfloor> - 1) \<le> real_of_int \<lfloor>a\<rfloor>" "real_of_int \<lfloor>a\<rfloor> + 1 \<le> 2 powi (bitlen \<lfloor>a\<rfloor>)"
      using bitlen_real_bounds [OF n] by simp_all
    then have "2 powi (bitlen \<lfloor>a\<rfloor> - 1) \<le> a" "a \<le> 2 powi (bitlen \<lfloor>a\<rfloor>)" by linarith+
    moreover have "int 52 + (bitlen \<lfloor>a\<rfloor> - 53) = bitlen \<lfloor>a\<rfloor> - 1"
      "int 53 + (bitlen \<lfloor>a\<rfloor> - 53) = bitlen \<lfloor>a\<rfloor>" by simp_all
    ultimately show ?thesis
      using True unfolding exponent64_def shift by simp
  next
    case False
    then have inv: "1 < 1 / a" using assms by simp
    then have n: "1 \<le> \<lfloor>1 / a\<rfloor>" by simp
    let ?b = "bitlen \<lfloor>1 / a\<rfloor>"
    have "2 powi (?b - 1) \<le> real_of_int \<lfloor>1 / a\<rfloor>" "real_of_int \<lfloor>1 / a\<rfloor> + 1 \<le> 2 powi ?b"
      using bitlen_real_bounds [OF n] by simp_all
    then have lo: "2 powi (?b - 1) \<le> 1 / a" and hi: "1 / a \<le> 2 powi ?b" by linarith+
    have p1: "0 < (2::real) powi (?b - 1)" and p2: "0 < (2::real) powi ?b" by simp_all
    have "a \<le> 1 / 2 powi (?b - 1)"
      using lo assms p1 by (simp add: field_simps)
    then have up: "a \<le> 2 powi (1 - ?b)"
      using power_int_minus_divide [of "2::real" "?b - 1"] by simp
    have "1 / 2 powi ?b \<le> a"
      using hi assms p2 by (simp add: field_simps)
    then have down: "2 powi (- ?b) \<le> a"
      using power_int_minus_divide [of "2::real" "?b"] by simp
    have "int 52 + (- ?b - 52) = - ?b" "int 53 + (- ?b - 52) = 1 - ?b" by simp_all
    then show ?thesis
      using False up down unfolding exponent64_def shift by simp
  qed
qed

lemma round64_error: "\<bar>round64 x - x\<bar> \<le> \<bar>x\<bar> / 2 ^ 53"
proof (cases "x = 0")
  case True
  then show ?thesis by (simp add: round64_def)
next
  case False
  let ?a = "\<bar>x\<bar>"
  let ?P = "(2::real) powi (exponent64 ?a)"
  let ?m = "real_of_int (round_even (?a / ?P))"
  have a: "0 < ?a" using False by simp
  have P: "0 < ?P" by simp
  have r: "round64 x = sgn x * ?m * ?P" using False by (simp add: round64_def Let_def)
  have "x = sgn x * ?a" by (simp add: sgn_mult_abs)
  then have "round64 x - x = sgn x * (?m * ?P - ?a)" unfolding r by (simp add: algebra_simps)
  then have "\<bar>round64 x - x\<bar> = \<bar>?m * ?P - ?a\<bar>"
    using False by (simp add: abs_mult abs_sgn_eq)
  also have "?m * ?P - ?a = (?m - ?a / ?P) * ?P" using P by (simp add: field_simps)
  also have "\<bar>(?m - ?a / ?P) * ?P\<bar> = \<bar>?m - ?a / ?P\<bar> * ?P" using P by (simp add: abs_mult)
  also have "\<dots> \<le> 1 / 2 * ?P"
    using round_even_near [of "?a / ?P"] P by (intro mult_right_mono) simp_all
  also have "\<dots> \<le> ?a / 2 ^ 53"
    using exponent64_range [OF a] by simp
  finally show ?thesis .
qed

lemma round64_nonneg: "0 \<le> x \<Longrightarrow> 0 \<le> round64 x"
  by (auto simp: round64_def Let_def round_even_nonneg sgn_if)

lemma round64_bounds:
  assumes "0 \<le> x"
  shows "x * (1 - 1 / 2 ^ 53) \<le> round64 x" and "round64 x \<le> x * (1 + 1 / 2 ^ 53)"
proof -
  have "\<bar>round64 x - x\<bar> \<le> x / 2 ^ 53" using round64_error [of x] assms by simp
  then have "x - x / 2 ^ 53 \<le> round64 x" "round64 x \<le> x + x / 2 ^ 53" by linarith+
  moreover have "x * (1 - 1 / 2 ^ 53) = x - x / 2 ^ 53" "x * (1 + 1 / 2 ^ 53) = x + x / 2 ^ 53"
    by (simp_all add: algebra_simps)
  ultimately show "x * (1 - 1 / 2 ^ 53) \<le> round64 x" "round64 x \<le> x * (1 + 1 / 2 ^ 53)"
    by simp_all
qed

lemma round64_exact:
  assumes "n \<le> 2 ^ 53"
  shows "round64 (real n) = real n"
proof (cases "n = 0")
  case True
  then show ?thesis by (simp add: round64_def)
next
  case False
  then have n1: "1 \<le> real n" by simp
  have fl: "\<lfloor>real n\<rfloor> = int n" by simp
  have k: "exponent64 (real n) = bitlen (int n) - 53"
    using n1 by (simp add: exponent64_def)
  have "\<exists>z. real n / 2 powi (bitlen (int n) - 53) = real_of_int z"
  proof (cases "n = 2 ^ 53")
    case True
    have "bitlen 9007199254740992 = 54" by code_simp
    then have "bitlen (int n) = 54" using True by simp
    then have "real n / 2 powi (bitlen (int n) - 53) = real_of_int (2 ^ 52)"
      using True by simp
    then show ?thesis by blast
  next
    case False
    then have "int n < 2 ^ nat 53" using assms by simp
    then have "bitlen (int n) \<le> 53" using bitlen_le_iff_power [of "int n" 53] by simp
    then have "real n / 2 powi (bitlen (int n) - 53) =
        real_of_int (int n * 2 ^ nat (53 - bitlen (int n)))"
      by (simp add: power_int_def power_inverse [symmetric] field_simps)
    then show ?thesis by blast
  qed
  then obtain z where z: "real n / 2 powi (bitlen (int n) - 53) = real_of_int z" by blast
  have "round64 (real n) = real_of_int z * 2 powi (bitlen (int n) - 53)"
    using False by (simp add: round64_def Let_def k z round_even_of_int)
  also have "\<dots> = real n" using z by (simp add: field_simps)
  finally show ?thesis .
qed

lemma round64_numeral [simp]:
  "(numeral k :: nat) \<le> 2 ^ 53 \<Longrightarrow> round64 (numeral k) = numeral k"
  using round64_exact [of "numeral k"] by simp

lemma round64_zero [simp]: "round64 0 = 0"
  by (simp add: round64_def)

lemma round64_one: "round64 1 = 1"
  using round64_exact [of 1] by simp

text \<open>The roundings of the examples, and two on which \<^verbatim>\<open>float64\<close> is not exact.\<close>

lemma round64_hashrate_rig1: "round64 (500 / 3) = 5864062014805333 / 35184372088832"
  by code_simp

lemma round64_total_two:
  "round64 (5864062014805333 / 35184372088832 + 50) = 7623280619246933 / 35184372088832"
  by code_simp

lemma round64_hashrate_rig1_again:
  "round64 (5864062014805333 / 35184372088832) = 5864062014805333 / 35184372088832"
  by code_simp

lemmas float_simps = fmul_def fdiv_def fadd_def f64_of_nat_def round64_hashrate_rig1
  round64_hashrate_rig1_again round64_total_two

lemma round64_tie: "round64 9007199254740993 = 9007199254740992"
  by code_simp

lemma round64_max_uint64: "round64 18446744073709551615 = 18446744073709551616"
  by code_simp

lemma round64_three_max: "round64 (3 * 18446744073709551616) = 55340232221128654848"
  by code_simp

lemma f64_of_nat_tie: "f64_of_nat 9007199254740993 = 9007199254740992"
  by (simp add: f64_of_nat_def round64_tie)

lemma fmul_three_max:
  "fmul (f64_of_nat 3) (f64_of_nat 18446744073709551615) = 55340232221128654848"
  using round64_three_max by (simp add: fmul_def f64_of_nat_def round64_max_uint64)

lemma fmul_exact:
  assumes "v * d \<le> 2 ^ 53"
  shows "fmul (f64_of_nat v) (f64_of_nat d) = real v * real d"
proof (cases "v = 0 \<or> d = 0")
  case True
  then show ?thesis by (auto simp: fmul_def f64_of_nat_def)
next
  case False
  then have "v \<le> v * d" "d \<le> v * d" by simp_all
  then have "v \<le> 2 ^ 53" "d \<le> 2 ^ 53" using assms by linarith+
  then have "f64_of_nat v = real v" "f64_of_nat d = real d"
    by (simp_all add: f64_of_nat_def round64_exact)
  moreover have "round64 (real (v * d)) = real (v * d)" using assms by (rule round64_exact)
  ultimately show ?thesis by (simp add: fmul_def)
qed

lemma round64_between:
  assumes "0 \<le> lo" and "lo \<le> x" and "x \<le> hi"
  shows "lo * round_lo \<le> round64 x \<and> round64 x \<le> hi * round_hi"
proof -
  have x: "0 \<le> x" using assms by linarith
  have "0 \<le> round_lo" "0 \<le> round_hi" by (simp_all add: round_lo_def round_hi_def)
  then have "lo * round_lo \<le> x * round_lo" "x * round_hi \<le> hi * round_hi"
    using assms by (simp_all add: mult_right_mono)
  moreover have "x * round_lo \<le> round64 x" "round64 x \<le> x * round_hi"
    using round64_bounds [OF x] by (simp_all add: round_lo_def round_hi_def)
  ultimately show ?thesis by linarith
qed

lemma unsigned_real_nonneg [simp]: "0 \<le> (unsigned (d :: uint64) :: real)"
proof -
  have "0 \<le> real (unat d)" by (rule of_nat_0_le_iff)
  then show ?thesis by simp
qed

lemma f64_of_nat_nonneg [simp]: "0 \<le> f64_of_nat n"
  by (simp add: f64_of_nat_def round64_nonneg)

lemma worker_hashrate_between:
  "real (ValidShares p) * real (unat d) / 60 * round_lo ^ 4 \<le> worker_hashrate d p \<and>
   worker_hashrate d p \<le> real (ValidShares p) * real (unat d) / 60 * round_hi ^ 4"
proof -
  let ?v = "real (ValidShares p)" and ?d = "real (unat d)"
  have lo0: "0 \<le> round_lo" and hi0: "0 \<le> round_hi" by (simp_all add: round_lo_def round_hi_def)
  have v: "?v * round_lo \<le> f64_of_nat (ValidShares p) \<and> f64_of_nat (ValidShares p) \<le> ?v * round_hi"
    unfolding f64_of_nat_def by (rule round64_between) simp_all
  have d: "?d * round_lo \<le> f64_of_nat (unat d) \<and> f64_of_nat (unat d) \<le> ?d * round_hi"
    unfolding f64_of_nat_def by (rule round64_between) simp_all
  have "(?v * round_lo) * (?d * round_lo) \<le> f64_of_nat (ValidShares p) * f64_of_nat (unat d)"
    using v d lo0 by (intro mult_mono) simp_all
  moreover have "f64_of_nat (ValidShares p) * f64_of_nat (unat d) \<le> (?v * round_hi) * (?d * round_hi)"
    using v d hi0 lo0 by (intro mult_mono) (simp_all add: f64_of_nat_def round64_nonneg)
  moreover have "0 \<le> (?v * round_lo) * (?d * round_lo)" using lo0 by simp
  ultimately have m: "(?v * round_lo) * (?d * round_lo) * round_lo \<le>
        fmul (f64_of_nat (ValidShares p)) (f64_of_nat (unat d)) \<and>
      fmul (f64_of_nat (ValidShares p)) (f64_of_nat (unat d)) \<le>
        (?v * round_hi) * (?d * round_hi) * round_hi"
    unfolding fmul_def by (intro round64_between)
  have "0 \<le> (?v * round_lo) * (?d * round_lo) * round_lo / 60" using lo0 by simp
  moreover have "(?v * round_lo) * (?d * round_lo) * round_lo / 60 \<le>
      fmul (f64_of_nat (ValidShares p)) (f64_of_nat (unat d)) / 60"
    using m by (simp add: divide_right_mono)
  moreover have "fmul (f64_of_nat (ValidShares p)) (f64_of_nat (unat d)) / 60 \<le>
      (?v * round_hi) * (?d * round_hi) * round_hi / 60"
    using m by (simp add: divide_right_mono)
  ultimately have b: "(?v * round_lo) * (?d * round_lo) * round_lo / 60 * round_lo \<le> worker_hashrate d p \<and>
      worker_hashrate d p \<le> (?v * round_hi) * (?d * round_hi) * round_hi / 60 * round_hi"
    unfolding worker_hashrate_def fdiv_def statCollectionPeriodSecs_def
    using round64_between [of "(?v * round_lo) * (?d * round_lo) * round_lo / 60"
        "fmul (f64_of_nat (ValidShares p)) (f64_of_nat (unat d)) / 60"
        "(?v * round_hi) * (?d * round_hi) * round_hi / 60"]
    by simp
  have eq: "(?v * round_lo) * (?d * round_lo) * round_lo / 60 * round_lo = ?v * ?d / 60 * round_lo ^ 4"
    "(?v * round_hi) * (?d * round_hi) * round_hi / 60 * round_hi = ?v * ?d / 60 * round_hi ^ 4"
    by (simp_all add: power4_eq_xxxx)
  show ?thesis using b unfolding eq .
qed

lemma f64_sum_between:
  assumes "0 \<le> T" and "4 \<le> m" and "T * round_lo ^ m \<le> t" and "t \<le> T * round_hi ^ m"
  shows "(T + (\<Sum>(w, p)\<leftarrow>ps. real (ValidShares p) * real (unat d) / 60)) * round_lo ^ (m + length ps)
       \<le> foldl fadd t (map (\<lambda>(w, p). worker_hashrate d p) ps) \<and>
     foldl fadd t (map (\<lambda>(w, p). worker_hashrate d p) ps)
       \<le> (T + (\<Sum>(w, p)\<leftarrow>ps. real (ValidShares p) * real (unat d) / 60)) * round_hi ^ (m + length ps)"
  using assms
proof (induction ps arbitrary: T t m)
  case Nil
  then show ?case by simp
next
  case (Cons a ps)
  obtain w p where a: "a = (w, p)" by (cases a)
  let ?e = "real (ValidShares p) * real (unat d) / 60"
  have lo: "0 \<le> round_lo" "round_lo \<le> 1" and hi: "1 \<le> round_hi"
    by (simp_all add: round_lo_def round_hi_def)
  have e0: "0 \<le> ?e" by simp
  have q: "?e * round_lo ^ 4 \<le> worker_hashrate d p" "worker_hashrate d p \<le> ?e * round_hi ^ 4"
    using worker_hashrate_between [of p d] by simp_all
  have "round_lo ^ m \<le> round_lo ^ 4" using lo Cons.prems(2) by (intro power_decreasing) simp_all
  then have "?e * round_lo ^ m \<le> ?e * round_lo ^ 4" using e0 by (intro mult_left_mono) simp_all
  then have low: "(T + ?e) * round_lo ^ m \<le> t + worker_hashrate d p"
    using Cons.prems(3) q(1) by (simp add: algebra_simps)
  have "round_hi ^ 4 \<le> round_hi ^ m" using hi Cons.prems(2) by (intro power_increasing) simp_all
  then have "?e * round_hi ^ 4 \<le> ?e * round_hi ^ m" using e0 by (intro mult_left_mono) simp_all
  then have high: "t + worker_hashrate d p \<le> (T + ?e) * round_hi ^ m"
    using Cons.prems(4) q(2) by (simp add: algebra_simps)
  have nn: "0 \<le> (T + ?e) * round_lo ^ m" using Cons.prems(1) e0 lo by simp
  have step: "(T + ?e) * round_lo ^ m * round_lo \<le> fadd t (worker_hashrate d p) \<and>
      fadd t (worker_hashrate d p) \<le> (T + ?e) * round_hi ^ m * round_hi"
    unfolding fadd_def using nn low high by (rule round64_between)
  have "(T + ?e + (\<Sum>(w, p)\<leftarrow>ps. real (ValidShares p) * real (unat d) / 60)) * round_lo ^ (Suc m + length ps)
       \<le> foldl fadd (fadd t (worker_hashrate d p)) (map (\<lambda>(w, p). worker_hashrate d p) ps) \<and>
     foldl fadd (fadd t (worker_hashrate d p)) (map (\<lambda>(w, p). worker_hashrate d p) ps)
       \<le> (T + ?e + (\<Sum>(w, p)\<leftarrow>ps. real (ValidShares p) * real (unat d) / 60)) * round_hi ^ (Suc m + length ps)"
    using Cons.prems(1,2) e0 step by (intro Cons.IH) (simp_all add: algebra_simps)
  then show ?case by (simp add: a algebra_simps)
qed

subsection \<open>The parts of the loop\<close>

lemma bucket_multiple: "bucket t mod 60 = 0"
  by (simp add: bucket_def statCollectionPeriodSecs_def)

lemma delete_all_subset: "fst ` set m \<subseteq> fst ` set ks \<Longrightarrow> delete_all ks m = []"
proof (induction ks m rule: delete_all.induct)
  case (1 m)
  then show ?case by simp
next
  case (2 k v ks m)
  have "fst ` set (filter (\<lambda>e. fst e \<noteq> k) m) \<subseteq> fst ` set ks"
    using "2.prems" by auto
  then show ?case using "2.IH" by simp
qed

lemma Clear_empty: "PendingStats (Clear c) = []"
  by (simp add: Clear_def delete_all_subset)

lemma collect_reads: "fst (collect clk d ps (r, t, b)) = r + length ps"
  by (induction ps arbitrary: r t b) (auto simp: Let_def)

lemma collect_total:
  "fst (snd (collect clk d ps (r, t, b))) =
     foldl fadd t (map (\<lambda>(w, p). worker_hashrate d p) ps)"
  by (induction ps arbitrary: r t b)
     (auto simp: Let_def make_stat_def worker_hashrate_def)

lemma collect_batch:
  "snd (snd (collect clk d ps (r, t, b))) =
     b @ map (\<lambda>((w, p), k). (make_stat d w p, bucket (clk k))) (zip ps [r..<r + length ps])"
proof (induction ps arbitrary: r t b)
  case Nil
  then show ?case by simp
next
  case (Cons a ps)
  obtain w p where a: "a = (w, p)" by (cases a)
  have "[r..<r + length (a # ps)] = r # [Suc r..<Suc r + length ps]"
    by (simp add: upt_conv_Cons del: upt_Suc)
  then show ?case using Cons.IH by (simp add: a Let_def del: upt_Suc)
qed

lemma merge_stat_keys: "fst ` set (merge_stat m w d) = insert w (fst ` set m)"
  by (induction m w d rule: merge_stat.induct) auto

lemma merge_stat_distinct: "distinct (map fst m) \<Longrightarrow> distinct (map fst (merge_stat m w d))"
proof (induction m w d rule: merge_stat.induct)
  case (1 w d)
  then show ?case by simp
next
  case (2 k p rest w d)
  then show ?case using merge_stat_keys [of rest w d] by (auto simp: image_iff)
qed

subsection \<open>Runs\<close>

lemma execute_snoc: "execute e c (evs @ [ev]) = step e (execute e c evs) ev"
  by (simp add: execute_def)

lemma execute_append: "execute e c (evs @ evs') = foldl (step e) (execute e c evs) evs'"
  by (simp add: execute_def)

lemma execute_induct:
  assumes "P (Run_start e c)" and "\<And>s ev. P s \<Longrightarrow> P (step e s ev)"
  shows "P (execute e c evs)"
proof (induction evs rule: rev_induct)
  case Nil
  then show ?case using assms(1) by (simp add: execute_def)
next
  case (snoc ev evs)
  then show ?case using assms(2) by (simp add: execute_snoc)
qed

text \<open>The locked range loop as one update of the state.\<close>

lemma collecting_eq:
  "collecting e s =
     s\<lparr>at_pc := Clearing,
       reads := reads s + length (PendingStats (collector s)),
       totalCollectedHashrate := foldl fadd (totalCollectedHashrate s)
         (map (\<lambda>(w, p). worker_hashrate (ShareDifficulty (collector s)) p)
            (PendingStats (collector s))),
       batch := map (\<lambda>((w, p), k). (make_stat (ShareDifficulty (collector s)) w p, bucket (clock e k)))
                  (zip (PendingStats (collector s))
                       [reads s..<reads s + length (PendingStats (collector s))])\<rparr>"
proof -
  obtain r t b where c: "collect (clock e) (ShareDifficulty (collector s)) (PendingStats (collector s))
             (reads s, totalCollectedHashrate s, []) = (r, t, b)"
    by (cases "collect (clock e) (ShareDifficulty (collector s)) (PendingStats (collector s))
             (reads s, totalCollectedHashrate s, [])") auto
  have "r = reads s + length (PendingStats (collector s))"
    using collect_reads [of "clock e" "ShareDifficulty (collector s)" "PendingStats (collector s)"
        "reads s" "totalCollectedHashrate s" "[]"] c by simp
  moreover have "t = foldl fadd (totalCollectedHashrate s)
         (map (\<lambda>(w, p). worker_hashrate (ShareDifficulty (collector s)) p)
            (PendingStats (collector s)))"
    using collect_total [of "clock e" "ShareDifficulty (collector s)" "PendingStats (collector s)"
        "reads s" "totalCollectedHashrate s" "[]"] c by simp
  moreover have "b = map (\<lambda>((w, p), k). (make_stat (ShareDifficulty (collector s)) w p, bucket (clock e k)))
                  (zip (PendingStats (collector s))
                       [reads s..<reads s + length (PendingStats (collector s))])"
    using collect_batch [of "clock e" "ShareDifficulty (collector s)" "PendingStats (collector s)"
        "reads s" "totalCollectedHashrate s" "[]"] c by simp
  ultimately show ?thesis by (simp add: collecting_def c)
qed

lemma apply_call_difficulty: "ShareDifficulty (apply_call c k) = ShareDifficulty c"
  by (cases k) (simp_all add: Record_def Stop_def)

lemma calls_difficulty: "ShareDifficulty (foldl apply_call c ks) = ShareDifficulty c"
  by (induction ks arbitrary: c) (simp_all add: apply_call_difficulty)

lemma flusher_difficulty: "ShareDifficulty (collector (flusher e s)) = ShareDifficulty (collector s)"
  by (cases "at_pc s")
     (simp_all add: flusher_def poll_def sleep_def collecting_eq clearing_def persisting_def
        Clear_def Let_def)

lemma step_difficulty: "ShareDifficulty (collector (step e s ev)) = ShareDifficulty (collector s)"
  by (cases ev) (simp_all add: flusher_difficulty apply_call_difficulty)

lemma execute_difficulty: "ShareDifficulty (collector (execute e c evs)) = ShareDifficulty c"
  by (rule execute_induct) (simp_all add: Run_start_def step_difficulty)

lemma calls_only_collector:
  "foldl (step e) s (map Call ks) = s\<lparr>collector := foldl apply_call (collector s) ks\<rparr>"
  by (induction ks arbitrary: s) simp_all

lemma apply_call_distinct:
  "distinct (map fst (PendingStats c)) \<Longrightarrow> distinct (map fst (PendingStats (apply_call c k)))"
  by (cases k) (simp_all add: Record_def Stop_def merge_stat_distinct)

lemma flusher_distinct:
  "distinct (map fst (PendingStats (collector s))) \<Longrightarrow>
   distinct (map fst (PendingStats (collector (flusher e s))))"
  by (cases "at_pc s")
     (simp_all add: flusher_def poll_def sleep_def collecting_eq clearing_def persisting_def
        Clear_empty Let_def)

lemma execute_distinct:
  assumes "distinct (map fst (PendingStats c))"
  shows "distinct (map fst (PendingStats (collector (execute e c evs))))"
proof (rule execute_induct)
  show "distinct (map fst (PendingStats (collector (Run_start e c))))"
    using assms by (simp add: Run_start_def)
next
  fix s :: run and ev
  assume "distinct (map fst (PendingStats (collector s)))"
  then show "distinct (map fst (PendingStats (collector (step e s ev))))"
    by (cases ev) (simp_all add: flusher_distinct apply_call_distinct)
qed

lemma total_zero_step:
  "at_pc s \<in> {Clearing, Persisting} \<or> totalCollectedHashrate s = 0 \<Longrightarrow>
   at_pc (step e s ev) \<in> {Clearing, Persisting} \<or> totalCollectedHashrate (step e s ev) = 0"
  by (cases ev; cases "at_pc s")
     (simp_all add: flusher_def poll_def sleep_def collecting_eq clearing_def persisting_def Let_def)

lemma execute_total_zero:
  "at_pc (execute e c evs) \<in> {Clearing, Persisting} \<or> totalCollectedHashrate (execute e c evs) = 0"
proof (rule execute_induct)
  show "at_pc (Run_start e c) \<in> {Clearing, Persisting} \<or> totalCollectedHashrate (Run_start e c) = 0"
    by (simp add: Run_start_def)
next
  fix s :: run and ev
  assume "at_pc s \<in> {Clearing, Persisting} \<or> totalCollectedHashrate s = 0"
  then show "at_pc (step e s ev) \<in> {Clearing, Persisting} \<or> totalCollectedHashrate (step e s ev) = 0"
    by (rule total_zero_step)
qed

subsection \<open>Buckets and boundary crossings\<close>

lemma bucket_nonneg: "0 \<le> t \<Longrightarrow> bucket t = t div 60 * 60"
  by (simp add: bucket_def statCollectionPeriodSecs_def signed_divide_int_def sgn_if)

lemma bucket_neg: "t < 0 \<Longrightarrow> bucket t = - ((- t) div 60 * 60)"
  by (simp add: bucket_def statCollectionPeriodSecs_def signed_divide_int_def sgn_if)

lemma bucket_mono: "a \<le> b \<Longrightarrow> bucket a \<le> bucket b"
proof -
  assume ab: "a \<le> b"
  consider "0 \<le> a" | "a < 0" "0 \<le> b" | "b < 0" using ab by linarith
  then show ?thesis
  proof cases
    case 1
    then have b: "0 \<le> b" using ab by linarith
    have "a div 60 \<le> b div 60" using ab by (rule zdiv_mono1) simp
    then show ?thesis unfolding bucket_nonneg [OF 1] bucket_nonneg [OF b] by linarith
  next
    case 2
    have "0 \<le> (- a) div 60" using 2 by (intro pos_imp_zdiv_nonneg_iff [THEN iffD2]) simp_all
    moreover have "0 \<le> b div 60" using 2 by (intro pos_imp_zdiv_nonneg_iff [THEN iffD2]) simp_all
    ultimately show ?thesis unfolding bucket_neg [OF 2(1)] bucket_nonneg [OF 2(2)] by linarith
  next
    case 3
    then have a: "a < 0" using ab by linarith
    have "- b \<le> - a" using ab by simp
    then have "(- b) div 60 \<le> (- a) div 60" by (rule zdiv_mono1) simp
    then show ?thesis unfolding bucket_neg [OF 3] bucket_neg [OF a] by linarith
  qed
qed

lemma remdups_adj_snoc:
  "xs \<noteq> [] \<Longrightarrow>
   remdups_adj (xs @ [x]) = (if last xs = x then remdups_adj xs else remdups_adj xs @ [x])"
proof (cases xs rule: rev_cases)
  case Nil
  assume "xs \<noteq> []"
  with Nil show ?thesis by simp
next
  case (snoc ys y)
  then show ?thesis by (simp add: remdups_adj_append_two)
qed

lemma sorted_distinct_adj: "sorted xs \<Longrightarrow> distinct_adj xs \<Longrightarrow> sorted_wrt (<) (xs :: int list)"
proof (induction xs rule: induct_list012)
  case 1
  then show ?case by simp
next
  case (2 x)
  then show ?case by simp
next
  case (3 x y zs)
  then have "x < y" and "sorted_wrt (<) (y # zs)" by (auto simp: distinct_adj_Cons)
  then show ?case by auto
qed

lemma poll_crossing: "crossing_inv e s \<Longrightarrow> crossing_inv e (poll e s)"
proof -
  assume inv: "crossing_inv e s"
  let ?L = "map bucket (clock e 0 # polled s)"
  have ne: "?L \<noteq> []" by simp
  have last: "last ?L = prevCollectionTimestamp s"
    using inv by (simp add: crossing_inv_def last_map)
  have snoc: "map bucket (clock e 0 # polled s @ [t]) = ?L @ [bucket t]" for t by simp
  have r: "remdups_adj (map bucket (clock e 0 # polled s @ [t])) =
      (if prevCollectionTimestamp s = bucket t then remdups_adj ?L else remdups_adj ?L @ [bucket t])" for t
    unfolding snoc using remdups_adj_snoc [OF ne, of "bucket t"] last by simp
  have tl: "tl (remdups_adj ?L @ [b]) = tl (remdups_adj ?L) @ [b]" for b
    by (rule tl_append2) simp
  show ?thesis
    using inv tl by (simp add: poll_def Let_def crossing_inv_def r del: remdups_adj.simps map_append list.map)
qed

lemma flusher_crossing: "crossing_inv e s \<Longrightarrow> crossing_inv e (flusher e s)"
proof (cases "at_pc s")
  case Poll
  assume "crossing_inv e s"
  then show ?thesis using Poll by (simp add: flusher_def poll_crossing)
qed (simp_all add: flusher_def crossing_inv_def sleep_def collecting_eq clearing_def persisting_def Let_def)

lemma execute_crossing: "crossing_inv e (execute e c evs)"
proof (rule execute_induct)
  show "crossing_inv e (Run_start e c)" by (simp add: crossing_inv_def Run_start_def)
next
  fix s :: run and ev
  assume "crossing_inv e s"
  then show "crossing_inv e (step e s ev)"
    by (cases ev) (simp_all add: flusher_crossing, simp add: crossing_inv_def)
qed

subsection \<open>The clock readings of the polls\<close>

lemma poll_polled: "polled_inv e s \<Longrightarrow> polled_inv e (poll e s)"
proof -
  assume "polled_inv e s"
  then obtain ks where ks: "polled s = map (clock e) ks" "sorted ks" "\<forall>k\<in>set ks. k < reads s"
    unfolding polled_inv_def by blast
  have "sorted (ks @ [reads s])" using ks by (auto simp: sorted_append less_imp_le)
  moreover have "polled s @ [clock e (reads s)] = map (clock e) (ks @ [reads s])"
    using ks by simp
  moreover have "\<forall>k\<in>set (ks @ [reads s]). k < Suc (reads s)" using ks by auto
  ultimately have new: "\<exists>ks'. polled s @ [clock e (reads s)] = map (clock e) ks' \<and> sorted ks' \<and>
      (\<forall>k\<in>set ks'. k < Suc (reads s))" by blast
  have old: "\<exists>ks'. polled s = map (clock e) ks' \<and> sorted ks' \<and> (\<forall>k\<in>set ks'. k < reads s)"
    using ks by blast
  show ?thesis using new old by (simp add: poll_def Let_def polled_inv_def)
qed

lemma flusher_polled: "polled_inv e s \<Longrightarrow> polled_inv e (flusher e s)"
proof (cases "at_pc s")
  case Poll
  assume "polled_inv e s"
  then show ?thesis using Poll by (simp add: flusher_def poll_polled)
next
  case Collecting
  assume "polled_inv e s"
  then obtain ks where ks: "polled s = map (clock e) ks" "sorted ks" "\<forall>k\<in>set ks. k < reads s"
    unfolding polled_inv_def by blast
  then have "\<forall>k\<in>set ks. k < reads s + length (PendingStats (collector s))" by auto
  with ks show ?thesis using Collecting
    by (auto simp: flusher_def collecting_eq polled_inv_def)
qed (simp_all add: flusher_def polled_inv_def sleep_def clearing_def persisting_def Let_def)

lemma execute_polled: "polled_inv e (execute e c evs)"
proof (rule execute_induct)
  show "polled_inv e (Run_start e c)" by (simp add: polled_inv_def Run_start_def)
next
  fix s :: run and ev
  assume "polled_inv e s"
  then show "polled_inv e (step e s ev)"
    by (cases ev) (simp_all add: flusher_polled, simp add: polled_inv_def)
qed

lemma sorted_map_mono:
  "(\<And>x y. x \<le> y \<Longrightarrow> f x \<le> f y) \<Longrightarrow> sorted xs \<Longrightarrow> sorted (map f xs)"
  by (induction xs) auto

lemma polled_sorted:
  assumes "mono (clock e)"
  shows "sorted (clock e 0 # polled (execute e c evs))"
proof -
  obtain ks where ks: "polled (execute e c evs) = map (clock e) ks" "sorted ks"
    using execute_polled [of e c evs] unfolding polled_inv_def by blast
  have "sorted (0 # ks)" using ks(2) by simp
  then have "sorted (map (clock e) (0 # ks))"
    by (rule sorted_map_mono [rotated]) (rule monoD [OF assms])
  then show ?thesis using ks(1) by simp
qed

lemma strictly_increasing_flushes:
  assumes "mono (clock e)"
  shows "sorted_wrt (<) (bucket (clock e 0) # flushed (execute e c evs))"
proof -
  let ?L = "map bucket (clock e 0 # polled (execute e c evs))"
  have "sorted ?L"
    using polled_sorted [OF assms, of c evs] by (rule sorted_map_mono [rotated]) (rule bucket_mono)
  then have "sorted (remdups_adj ?L)" by (rule sorted_remdups_adj)
  then have "sorted_wrt (<) (remdups_adj ?L)"
    by (rule sorted_distinct_adj) (rule distinct_adj_remdups_adj)
  moreover have "remdups_adj ?L = bucket (clock e 0) # tl (remdups_adj ?L)"
    using remdups_adj_Cons_alt [of "bucket (clock e 0)" "map bucket (polled (execute e c evs))"]
    by (simp del: remdups_adj.simps remdups_adj_Cons_alt)
  moreover have "flushed (execute e c evs) = tl (remdups_adj ?L)"
    using execute_crossing [of e c evs] by (simp add: crossing_inv_def del: remdups_adj.simps)
  ultimately show ?thesis by (simp del: remdups_adj.simps list.map)
qed

subsection \<open>Database calls and rows\<close>

lemma flusher_db_calls:
  assumes "length (db_calls s) + pending_calls s = 2 * length (flushed s)"
  shows "length (db_calls (flusher e s)) + pending_calls (flusher e s) =
     2 * length (flushed (flusher e s))"
proof (cases "at_pc s")
  case Poll
  then show ?thesis using assms
    by (simp add: pending_calls_def flusher_def poll_def Let_def)
next
  case Sleeping
  then show ?thesis using assms by (simp add: pending_calls_def flusher_def sleep_def)
next
  case Collecting
  then show ?thesis using assms by (simp add: pending_calls_def flusher_def collecting_eq)
next
  case Clearing
  then show ?thesis using assms by (simp add: pending_calls_def flusher_def clearing_def)
next
  case Persisting
  then show ?thesis using assms by (simp add: pending_calls_def flusher_def persisting_def Let_def)
next
  case Returned
  then show ?thesis using assms by (simp add: pending_calls_def flusher_def)
qed

lemma execute_db_calls:
  "length (db_calls (execute e c evs)) + pending_calls (execute e c evs) =
     2 * length (flushed (execute e c evs))"
proof (rule execute_induct)
  show "length (db_calls (Run_start e c)) + pending_calls (Run_start e c) =
     2 * length (flushed (Run_start e c))" by (simp add: Run_start_def pending_calls_def)
next
  fix s :: run and ev
  assume a: "length (db_calls s) + pending_calls s = 2 * length (flushed s)"
  show "length (db_calls (step e s ev)) + pending_calls (step e s ev) =
     2 * length (flushed (step e s ev))"
  proof (cases ev)
    case Flusher
    then show ?thesis using flusher_db_calls [OF a] by simp
  next
    case (Call k)
    then show ?thesis using a by (simp add: pending_calls_def)
  qed
qed

lemmas run_simps = execute_def Run_start_def flusher_def poll_def sleep_def collecting_def
  clearing_def persisting_def Clear_def Record_def Stop_def make_stat_def bucket_def
  statCollectionPeriodSecs_def keepStatsForSecs_def Let_def

lemmas ex_simps = ex_env_def ex_clock_def ex_collector_def rig1_def

lemma ex_clock_mono: "mono (clock ex_env)"
  by (simp add: mono_def ex_env_def ex_clock_def)

lemma bucket_floor: "0 \<le> t \<Longrightarrow> bucket t = \<lfloor>real_of_int t / 60\<rfloor> * 60"
proof -
  assume "0 \<le> t"
  moreover have "\<lfloor>real_of_int t / 60\<rfloor> = t div 60"
    using floor_divide_of_int_eq [of t 60, where ?'a = real] by simp
  ultimately show ?thesis by (simp add: bucket_nonneg)
qed

lemma flusher_rows:
  assumes P: "\<And>w p k. P (make_stat d w p, bucket (clock e k))"
    and inv: "rows_inv P d s"
  shows "rows_inv P d (flusher e s)"
proof (cases "at_pc s")
  case Collecting
  have "list_all P (map (\<lambda>((w, p), k). (make_stat d w p, bucket (clock e k))) zs)" for zs
    by (induction zs) (auto simp: P)
  then show ?thesis using inv Collecting
    by (simp add: rows_inv_def flusher_def collecting_eq)
next
  case Poll
  then show ?thesis using inv by (simp add: rows_inv_def flusher_def poll_def Let_def)
next
  case Sleeping
  then show ?thesis using inv by (simp add: rows_inv_def flusher_def sleep_def)
next
  case Clearing
  then show ?thesis using inv by (simp add: rows_inv_def flusher_def clearing_def Clear_def)
next
  case Persisting
  then show ?thesis using inv by (simp add: rows_inv_def flusher_def persisting_def Let_def)
next
  case Returned
  then show ?thesis using inv by (simp add: rows_inv_def flusher_def)
qed

lemma execute_rows:
  assumes P: "\<And>w p k. P (make_stat (ShareDifficulty c) w p, bucket (clock e k))"
  shows "rows_inv P (ShareDifficulty c) (execute e c evs)"
proof (rule execute_induct)
  show "rows_inv P (ShareDifficulty c) (Run_start e c)"
    by (simp add: rows_inv_def Run_start_def)
next
  fix s :: run and ev
  assume inv: "rows_inv P (ShareDifficulty c) s"
  show "rows_inv P (ShareDifficulty c) (step e s ev)"
  proof (cases ev)
    case Flusher
    then show ?thesis using flusher_rows [of P "ShareDifficulty c" e s, OF P inv] by simp
  next
    case (Call k)
    then show ?thesis using inv by (simp add: rows_inv_def apply_call_difficulty)
  qed
qed

lemma written_rows:
  assumes P: "\<And>w p k. P (make_stat (ShareDifficulty c) w p, bucket (clock e k))"
    and w: "Write b f \<in> set (db_calls (execute e c evs))" and r: "row \<in> set b"
  shows "P row"
proof -
  have "list_all (\<lambda>call. case call of Write b f \<Rightarrow> list_all P b | PruneStats h f \<Rightarrow> True)
      (db_calls (execute e c evs))"
    using execute_rows [of P c e evs, OF P] by (simp add: rows_inv_def)
  then have "list_all P b" using w by (auto simp: list_all_iff)
  then show ?thesis using r by (simp add: list_all_iff)
qed

subsection \<open>A whole flush\<close>

text \<open>
  The three steps of a flush, with calls of the other goroutines between them, as one update
  of the state.
\<close>

lemma flush_steps:
  assumes "at_pc s = Collecting"
  shows "foldl (step e) s (Flusher # map Call ks1 @ Flusher # map Call ks2 @ [Flusher]) =
     s\<lparr>at_pc := Poll,
       collector := foldl apply_call (Clear (foldl apply_call (collector s) ks1)) ks2,
       reads := reads s + length (PendingStats (collector s)),
       batch := map (\<lambda>((w, p), k). (make_stat (ShareDifficulty (collector s)) w p, bucket (clock e k)))
                  (zip (PendingStats (collector s))
                       [reads s..<reads s + length (PendingStats (collector s))]),
       db_calls := db_calls s @
         [Write (map (\<lambda>((w, p), k). (make_stat (ShareDifficulty (collector s)) w p, bucket (clock e k)))
                  (zip (PendingStats (collector s))
                       [reads s..<reads s + length (PendingStats (collector s))]))
            (db_fails e (length (db_calls s))),
          PruneStats keepStatsForSecs (db_fails e (Suc (length (db_calls s))))],
       logs := logs s @ [Collected (foldl fadd (totalCollectedHashrate s)
         (map (\<lambda>(w, p). worker_hashrate (ShareDifficulty (collector s)) p)
            (PendingStats (collector s))))],
       totalCollectedHashrate := 0\<rparr>"
  using assms
  by (simp add: calls_only_collector flusher_def collecting_eq clearing_def persisting_def Let_def)

lemma map_fst_zip_fun: "length ps = length ks \<Longrightarrow> map (\<lambda>x. F (fst x)) (zip ps ks) = map F ps"
  by (induction ps ks rule: list_induct2) auto

lemma map_snd_zip_fun: "length ps = length ks \<Longrightarrow> map (\<lambda>x. G (snd x)) (zip ps ks) = map G ks"
  by (induction ps ks rule: list_induct2) auto

lemma zip_upt_fst: "map (\<lambda>x. F (fst x)) (zip ps [r..<r + length ps]) = map F ps"
  by (rule map_fst_zip_fun) simp

lemma zip_upt_snd: "map (\<lambda>x. G (snd x)) (zip ps [r..<r + length ps]) = map G [r..<r + length ps]"
  by (rule map_snd_zip_fun) simp

lemma flush_written:
  assumes "at_pc (execute e c evs) = Collecting"
  shows "\<exists>b f g.
     db_calls (execute e c (evs @ Flusher # map Call ks1 @ Flusher # map Call ks2 @ [Flusher])) =
       db_calls (execute e c evs) @ [Write b f, PruneStats keepStatsForSecs g] \<and>
     map fst b = map (\<lambda>(w, p). make_stat (ShareDifficulty c) w p)
                   (PendingStats (collector (execute e c evs))) \<and>
     map snd b = map (\<lambda>k. bucket (clock e k))
        [reads (execute e c evs)..<
         reads (execute e c evs) + length (PendingStats (collector (execute e c evs)))]"
  unfolding execute_append [of e c evs] flush_steps [OF assms]
  using zip_upt_fst [of "\<lambda>x. make_stat (ShareDifficulty c) (fst x) (snd x)"
      "PendingStats (collector (execute e c evs))" "reads (execute e c evs)"]
    zip_upt_snd [of "\<lambda>k. bucket (clock e k)"
      "PendingStats (collector (execute e c evs))" "reads (execute e c evs)"]
  by (simp add: execute_difficulty comp_def case_prod_unfold)

text \<open>Two stats on which \<^verbatim>\<open>float64\<close> rounds: a tie in the conversion, and the largest difficulty.\<close>

lemma make_stat_tie:
  "EffectiveHashrate (make_stat 1 w \<lparr>ValidShares = 9007199254740993, StaleShares = 0,
      InvalidShares = 0, ReportedHashrate = 0, IPAddress = []\<rparr>) = 9007199254740992"
  by (simp add: make_stat_def fmul_def f64_of_nat_def round64_tie round64_one)

lemma make_stat_max_difficulty:
  "EffectiveHashrate (make_stat 18446744073709551615 w \<lparr>ValidShares = 3, StaleShares = 0,
      InvalidShares = 0, ReportedHashrate = 0, IPAddress = []\<rparr>) = 55340232221128654848"
  using fmul_three_max by (simp add: make_stat_def)

lemma make_stat_fields:
  "WorkerName (make_stat d w p) = w"
  "ValidShareCount (make_stat d w p) = ValidShares p"
  "EffectiveHashrate (make_stat d w p) = fmul (f64_of_nat (ValidShares p)) (f64_of_nat (unat d))"
  by (simp_all add: make_stat_def)

lemmas late_simps = late_env_def late_clock_def ex_collector_def rig1_def rig2_def

subsection \<open>Outcomes of the database calls, and cancellation\<close>

lemma same_run_step:
  assumes "s' = s\<lparr>db_calls := db_calls s'\<rparr>" and "map call_made (db_calls s') = map call_made (db_calls s)"
  shows "step (e\<lparr>db_fails := f\<rparr>) s' ev = (step e s ev)\<lparr>db_calls := db_calls (step (e\<lparr>db_fails := f\<rparr>) s' ev)\<rparr> \<and>
     map call_made (db_calls (step (e\<lparr>db_fails := f\<rparr>) s' ev)) = map call_made (db_calls (step e s ev))"
proof -
  obtain dc where s': "s' = s\<lparr>db_calls := dc\<rparr>" and dc: "map call_made dc = map call_made (db_calls s)"
    using assms by metis
  have len: "length dc = length (db_calls s)" using dc by (rule map_eq_imp_length_eq)
  show ?thesis
  proof (cases ev)
    case (Call k)
    then show ?thesis using dc by (simp add: s')
  next
    case Flusher
    show ?thesis
    proof (cases "at_pc s")
      case Poll
      then show ?thesis using dc Flusher by (simp add: s' flusher_def poll_def Let_def)
    next
      case Sleeping
      then show ?thesis using dc Flusher by (simp add: s' flusher_def sleep_def)
    next
      case Collecting
      then show ?thesis using dc Flusher by (simp add: s' flusher_def collecting_eq)
    next
      case Clearing
      then show ?thesis using dc Flusher by (simp add: s' flusher_def clearing_def)
    next
      case Persisting
      then show ?thesis using dc len Flusher
        by (simp add: s' flusher_def persisting_def Let_def call_made_def)
    next
      case Returned
      then show ?thesis using dc Flusher by (simp add: s' flusher_def)
    qed
  qed
qed

lemma same_run:
  "execute (e\<lparr>db_fails := f\<rparr>) c evs =
     (execute e c evs)\<lparr>db_calls := db_calls (execute (e\<lparr>db_fails := f\<rparr>) c evs)\<rparr> \<and>
   map call_made (db_calls (execute (e\<lparr>db_fails := f\<rparr>) c evs)) =
     map call_made (db_calls (execute e c evs))"
proof (induction evs rule: rev_induct)
  case Nil
  then show ?case by (simp add: execute_def Run_start_def)
next
  case (snoc ev evs)
  then show ?case unfolding execute_snoc by (intro same_run_step) simp_all
qed

lemma calls_pending_cong:
  "PendingStats c = PendingStats c' \<Longrightarrow>
   PendingStats (foldl apply_call c ks) = PendingStats (foldl apply_call c' ks)"
proof (induction ks arbitrary: c c')
  case Nil
  then show ?case by simp
next
  case (Cons k ks)
  have "PendingStats (apply_call c k) = PendingStats (apply_call c' k)"
    using Cons.prems by (cases k) (simp_all add: Record_def Stop_def)
  then have "PendingStats (foldl apply_call (apply_call c k) ks) =
      PendingStats (foldl apply_call (apply_call c' k) ks)"
    by (rule Cons.IH)
  then show ?case by simp
qed

lemma calls_done: "ContextDone c \<Longrightarrow> ContextDone (foldl apply_call c ks)"
proof (induction ks arbitrary: c)
  case Nil
  then show ?case by simp
next
  case (Cons k ks)
  have "ContextDone (apply_call c k)" using Cons.prems by (cases k) (simp_all add: Record_def Stop_def)
  then show ?case using Cons.IH by simp
qed

lemma stop_then_idle:
  assumes "at_pc s \<in> {Poll, Sleeping}"
  shows "at_pc (foldl (step e) s (Call StopCall # map Call ks1 @ Flusher # map Call ks2 @ [Flusher])) = Returned \<and>
     slept (foldl (step e) s (Call StopCall # map Call ks1 @ Flusher # map Call ks2 @ [Flusher])) \<le> slept s + 1 \<and>
     db_calls (foldl (step e) s (Call StopCall # map Call ks1 @ Flusher # map Call ks2 @ [Flusher])) = db_calls s \<and>
     flushed (foldl (step e) s (Call StopCall # map Call ks1 @ Flusher # map Call ks2 @ [Flusher])) = flushed s"
proof -
  have d1: "ContextDone (foldl apply_call (Stop (collector s)) ks1)"
    by (rule calls_done) (simp add: Stop_def)
  then have d2: "ContextDone (foldl apply_call (foldl apply_call (Stop (collector s)) ks1) ks2)"
    by (rule calls_done)
  from assms consider "at_pc s = Poll" | "at_pc s = Sleeping" by auto
  then show ?thesis
  proof cases
    case 1
    then show ?thesis using d1
      by (simp add: calls_only_collector flusher_def poll_def)
  next
    case 2
    then show ?thesis using d2
      by (simp add: calls_only_collector flusher_def poll_def sleep_def)
  qed
qed

lemma stop_commutes:
  assumes "at_pc s \<noteq> Poll"
  shows "flusher e (s\<lparr>collector := Stop (collector s)\<rparr>) =
     (flusher e s)\<lparr>collector := Stop (collector (flusher e s))\<rparr>"
  using assms
  by (cases "at_pc s")
     (simp_all add: flusher_def sleep_def collecting_eq clearing_def persisting_def Let_def
        Stop_def Clear_def)

section \<open>The claims\<close>

text \<open>
  C6: a flush is triggered exactly once per new period index, however many polls observe the
  same index, and none fires at startup, because the marker starts as the current period's
  floor. For every run: the marker starts as the bucket of the first clock reading, with no
  flush started; the flushes started are exactly the changes of bucket along the readings of
  the polls, so a run of polls that see the same bucket starts nothing further; every flush
  started makes its two database calls once; and when the clock never goes backwards, the
  boundaries flushed increase strictly, so that none is flushed twice. For a time that is
  not negative the bucket is the floor of the time divided by the period, times the period.
\<close>

theorem flush_once_per_new_period:
  "flushed (Run_start e c) = [] \<and>
   prevCollectionTimestamp (Run_start e c) = bucket (clock e 0) \<and>
   flushed (execute e c evs) =
     tl (remdups_adj (map bucket (clock e 0 # polled (execute e c evs)))) \<and>
   prevCollectionTimestamp (execute e c evs) = bucket (last (clock e 0 # polled (execute e c evs))) \<and>
   length (db_calls (execute e c evs)) + pending_calls (execute e c evs) =
     2 * length (flushed (execute e c evs)) \<and>
   (mono (clock e) \<longrightarrow> sorted_wrt (<) (bucket (clock e 0) # flushed (execute e c evs))) \<and>
   (0 \<le> t \<longrightarrow> bucket t = \<lfloor>real_of_int t / 60\<rfloor> * 60)"
proof -
  have "flushed (Run_start e c) = []" "prevCollectionTimestamp (Run_start e c) = bucket (clock e 0)"
    by (simp_all add: Run_start_def)
  moreover have "flushed (execute e c evs) =
       tl (remdups_adj (map bucket (clock e 0 # polled (execute e c evs))))"
    "prevCollectionTimestamp (execute e c evs) = bucket (last (clock e 0 # polled (execute e c evs)))"
    using execute_crossing [of e c evs] unfolding crossing_inv_def by blast+
  moreover note execute_db_calls [of e c evs]
  moreover have "mono (clock e) \<longrightarrow> sorted_wrt (<) (bucket (clock e 0) # flushed (execute e c evs))"
    using strictly_increasing_flushes [of e c evs] by blast
  moreover have "0 \<le> t \<longrightarrow> bucket t = \<lfloor>real_of_int t / 60\<rfloor> * 60"
    using bucket_floor [of t] by blast
  ultimately show ?thesis by blast
qed

theorem flush_once_per_new_period_witness:
  "mono (clock ex_env) \<and> (0::int) \<le> 1010 \<and>
   polled (execute ex_env ex_collector
     [Flusher, Flusher, Flusher, Flusher, Flusher, Flusher, Flusher, Flusher, Flusher, Flusher]) =
     [1015, 1020, 1025, 1030] \<and>
   flushed (execute ex_env ex_collector
     [Flusher, Flusher, Flusher, Flusher, Flusher, Flusher, Flusher, Flusher, Flusher, Flusher]) = [1020] \<and>
   sorted_wrt (<) (bucket (clock ex_env 0) # flushed (execute ex_env ex_collector
     [Flusher, Flusher, Flusher, Flusher, Flusher, Flusher, Flusher, Flusher, Flusher, Flusher])) \<and>
   bucket 1010 = \<lfloor>real_of_int 1010 / 60\<rfloor> * 60"
proof -
  have p: "polled (execute ex_env ex_collector
     [Flusher, Flusher, Flusher, Flusher, Flusher, Flusher, Flusher, Flusher, Flusher, Flusher]) =
     [1015, 1020, 1025, 1030]"
    by (simp add: run_simps ex_simps)
  have "map bucket (clock ex_env 0 # [1015, 1020, 1025, 1030]) = [960, 960, 1020, 1020, 1020]"
    by (simp add: run_simps ex_simps)
  then show ?thesis
    using flush_once_per_new_period [of ex_env ex_collector
     "[Flusher, Flusher, Flusher, Flusher, Flusher, Flusher, Flusher, Flusher, Flusher, Flusher]" 1010]
      ex_clock_mono p
    by simp
qed

text \<open>
  C7: every timestamp attached to a row is an exact multiple of the period length. In every
  run, every row of every batch handed to the database has a timestamp with remainder zero,
  with Go's remainder and with the mathematical one.
\<close>

theorem timestamps_are_multiples:
  assumes "Write b f \<in> set (db_calls (execute e c evs))" and "(st, ts) \<in> set b"
  shows "ts mod statCollectionPeriodSecs = 0 \<and> ts smod statCollectionPeriodSecs = 0"
proof -
  have "bucket t mod statCollectionPeriodSecs = 0 \<and> bucket t smod statCollectionPeriodSecs = 0" for t
    by (simp add: bucket_def statCollectionPeriodSecs_def signed_modulo_int_def abs_mult)
  then show ?thesis
    using written_rows [of "\<lambda>row. snd row mod statCollectionPeriodSecs = 0 \<and>
        snd row smod statCollectionPeriodSecs = 0" c e b f evs "(st, ts)"] assms
    by simp
qed

theorem timestamps_are_multiples_witness:
  "Write [(make_stat 1000 ''rig1'' rig1, 1020)] False \<in> set (db_calls (execute ex_env ex_collector
      [Call (RecordCall ''rig1'' rig1), Flusher, Flusher, Flusher, Flusher, Flusher, Flusher])) \<and>
   (1020::int) mod statCollectionPeriodSecs = 0 \<and> (1020::int) smod statCollectionPeriodSecs = 0"
proof -
  have w: "Write [(make_stat 1000 ''rig1'' rig1, 1020)] False \<in> set (db_calls (execute ex_env ex_collector
      [Call (RecordCall ''rig1'' rig1), Flusher, Flusher, Flusher, Flusher, Flusher, Flusher]))"
    by (simp add: run_simps ex_simps)
  have r: "(make_stat 1000 ''rig1'' rig1, 1020) \<in> set [(make_stat 1000 ''rig1'' rig1, 1020::int)]"
    by simp
  show ?thesis using timestamps_are_multiples [OF w r] w by simp
qed

text \<open>
  C1 (amended): for every worker present in a flush snapshot, the EffectiveHashrate written
  to the store is the \<^verbatim>\<open>float64\<close> product of the worker's ValidShares and the ShareDifficulty,
  each converted to \<^verbatim>\<open>float64\<close>; it is not divided by the period length. The product is the
  exact one whenever that does not exceed \<open>2^53\<close>. In every run, when the loop is about to
  fill a batch, the batch it then writes has, whatever the producers do meanwhile, one row
  per pending entry in order, with the worker's name and with this product.
\<close>

theorem effective_hashrate_written:
  assumes "at_pc (execute e c evs) = Collecting"
  shows "\<exists>b f g.
     db_calls (execute e c (evs @ Flusher # map Call ks1 @ Flusher # map Call ks2 @ [Flusher])) =
       db_calls (execute e c evs) @ [Write b f, PruneStats keepStatsForSecs g] \<and>
     map (WorkerName \<circ> fst) b = map fst (PendingStats (collector (execute e c evs))) \<and>
     map (EffectiveHashrate \<circ> fst) b =
       map (\<lambda>(w, p). fmul (f64_of_nat (ValidShares p)) (f64_of_nat (unat (ShareDifficulty c))))
         (PendingStats (collector (execute e c evs))) \<and>
     (list_all (\<lambda>(w, p). ValidShares p * unat (ShareDifficulty c) \<le> 2 ^ 53)
        (PendingStats (collector (execute e c evs))) \<longrightarrow>
      map (EffectiveHashrate \<circ> fst) b =
        map (\<lambda>(w, p). real (ValidShares p) * real (unat (ShareDifficulty c)))
          (PendingStats (collector (execute e c evs))))"
proof -
  let ?ps = "PendingStats (collector (execute e c evs))"
  obtain b f g where b:
    "db_calls (execute e c (evs @ Flusher # map Call ks1 @ Flusher # map Call ks2 @ [Flusher])) =
       db_calls (execute e c evs) @ [Write b f, PruneStats keepStatsForSecs g]"
    "map fst b = map (\<lambda>(w, p). make_stat (ShareDifficulty c) w p) ?ps"
    using flush_written [OF assms, of ks1 ks2] by blast
  have "map (WorkerName \<circ> fst) b = map WorkerName (map fst b)"
    "map (EffectiveHashrate \<circ> fst) b = map EffectiveHashrate (map fst b)"
    by simp_all
  then have names: "map (WorkerName \<circ> fst) b = map fst ?ps"
    and rates: "map (EffectiveHashrate \<circ> fst) b =
       map (\<lambda>(w, p). fmul (f64_of_nat (ValidShares p)) (f64_of_nat (unat (ShareDifficulty c)))) ?ps"
    unfolding b(2) by (simp_all add: make_stat_fields comp_def case_prod_unfold)
  have "map (\<lambda>(w, p). fmul (f64_of_nat (ValidShares p)) (f64_of_nat (unat (ShareDifficulty c)))) ?ps =
      map (\<lambda>(w, p). real (ValidShares p) * real (unat (ShareDifficulty c))) ?ps"
    if "list_all (\<lambda>(w, p). ValidShares p * unat (ShareDifficulty c) \<le> 2 ^ 53) ?ps"
    using that by (intro map_cong refl) (auto simp: list_all_iff fmul_exact simp del: of_nat_unat)
  with b(1) names rates show ?thesis by auto
qed

theorem effective_hashrate_written_witness:
  "at_pc (execute ex_env ex_collector [Call (RecordCall ''rig1'' rig1), Call (RecordCall ''rig2'' rig2), Flusher, Flusher, Flusher]) = Collecting \<and>
   list_all (\<lambda>(w, p). ValidShares p * unat (ShareDifficulty ex_collector) \<le> 2 ^ 53)
     (PendingStats (collector (execute ex_env ex_collector [Call (RecordCall ''rig1'' rig1), Call (RecordCall ''rig2'' rig2), Flusher, Flusher, Flusher]))) \<and>
   (\<exists>b f g.
     db_calls (execute ex_env ex_collector
       ([Call (RecordCall ''rig1'' rig1), Call (RecordCall ''rig2'' rig2), Flusher, Flusher, Flusher] @
        Flusher # map Call [] @ Flusher # map Call [] @ [Flusher])) =
       db_calls (execute ex_env ex_collector [Call (RecordCall ''rig1'' rig1), Call (RecordCall ''rig2'' rig2), Flusher, Flusher, Flusher]) @
         [Write b f, PruneStats keepStatsForSecs g] \<and>
     map (WorkerName \<circ> fst) b = [''rig1'', ''rig2''] \<and>
     map (EffectiveHashrate \<circ> fst) b = [10000, 3000])"
proof -
  have h: "at_pc (execute ex_env ex_collector [Call (RecordCall ''rig1'' rig1), Call (RecordCall ''rig2'' rig2), Flusher, Flusher, Flusher]) = Collecting"
    by (simp add: run_simps ex_simps)
  have p: "PendingStats (collector (execute ex_env ex_collector [Call (RecordCall ''rig1'' rig1), Call (RecordCall ''rig2'' rig2), Flusher, Flusher, Flusher])) =
      [(''rig1'', rig1), (''rig2'', rig2)]"
    by (simp add: run_simps ex_simps)
  have small: "list_all (\<lambda>(w, p). ValidShares p * unat (ShareDifficulty ex_collector) \<le> 2 ^ 53)
      [(''rig1'', rig1), (''rig2'', rig2)]"
    by (simp add: ex_collector_def rig1_def rig2_def)
  obtain b f g where w:
    "db_calls (execute ex_env ex_collector
       ([Call (RecordCall ''rig1'' rig1), Call (RecordCall ''rig2'' rig2), Flusher, Flusher, Flusher] @
        Flusher # map Call [] @ Flusher # map Call [] @ [Flusher])) =
       db_calls (execute ex_env ex_collector [Call (RecordCall ''rig1'' rig1), Call (RecordCall ''rig2'' rig2), Flusher, Flusher, Flusher]) @
         [Write b f, PruneStats keepStatsForSecs g]"
    "map (WorkerName \<circ> fst) b = map fst [(''rig1'', rig1), (''rig2'', rig2)]"
    "map (EffectiveHashrate \<circ> fst) b =
        map (\<lambda>(w, p). real (ValidShares p) * real (unat (ShareDifficulty ex_collector)))
          [(''rig1'', rig1), (''rig2'', rig2)]"
    using effective_hashrate_written [OF h, of "[]" "[]"] small unfolding p by blast
  have names: "map (WorkerName \<circ> fst) b = [''rig1'', ''rig2'']" using w(2) by simp
  have rates: "map (EffectiveHashrate \<circ> fst) b = [10000, 3000]"
    unfolding w(3) by (simp add: ex_collector_def rig1_def rig2_def)
  show ?thesis
    unfolding p using h small w(1) names rates by (intro conjI exI)
qed

text \<open>
  C1 as stated fails in the scenario of the specification: with difficulty 1000 and ten valid
  shares the row written for rig1 has EffectiveHashrate 10000, which is neither the quotient
  10000 / 60 nor the \<^verbatim>\<open>float64\<close> nearest to it.
\<close>

theorem effective_hashrate_counterexample:
  "db_calls (execute ex_env ex_collector
      [Call (RecordCall ''rig1'' rig1), Flusher, Flusher, Flusher, Flusher, Flusher, Flusher]) =
     [Write [(\<lparr>WorkerName = ''rig1'', ValidShareCount = 10, StaleShareCount = 0,
               InvalidShareCount = 0, StatReportedHashrate = 500, EffectiveHashrate = 10000,
               StatIPAddress = ''1.2.3.4''\<rparr>, 1020)] False,
      PruneStats 86400 False] \<and>
   (10000 :: real) \<noteq> real (ValidShares rig1) * real (unat (ShareDifficulty ex_collector)) /
      real_of_int statCollectionPeriodSecs \<and>
   (10000 :: real) \<noteq> worker_hashrate (ShareDifficulty ex_collector) rig1"
  by (simp add: run_simps ex_simps worker_hashrate_def float_simps)

text \<open>
  C2 (the code fails it): taking the snapshot and clearing the accumulator are two critical
  sections, the range loop under the lock and then \<^verbatim>\<open>Clear\<close> under the lock again. A call of
  \<^verbatim>\<open>Record\<close> that runs between them is lost: of the fifteen valid shares recorded for rig1,
  ten are written by the first flush, the second flush writes an empty batch, and nothing
  is left pending.
\<close>

theorem record_lost_between_snapshot_and_clear:
  "db_calls (execute ex_env ex_collector lost_schedule) =
     [Write [(make_stat 1000 ''rig1'' rig1, 1020)] False, PruneStats 86400 False,
      Write [] False, PruneStats 86400 False] \<and>
   ValidShareCount (make_stat 1000 ''rig1'' rig1) = 10 \<and>
   PendingStats (collector (execute ex_env ex_collector lost_schedule)) = [] \<and>
   at_pc (execute ex_env ex_collector lost_schedule) = Poll"
  by (simp add: run_simps ex_simps rig1_more_def lost_schedule_def)

text \<open>
  C3 (amended): construction performs no validation and never fails. \<^verbatim>\<open>NewCollector\<close> returns
  a collector for every share difficulty, zero included, with an empty accumulator and a
  context that is not cancelled; the period length and the retention horizon are not
  inputs but the constants 60 and 86400, both positive.
\<close>

theorem new_collector_never_fails:
  "NewCollector d = Some \<lparr>PendingStats = [], ShareDifficulty = d, ContextDone = False\<rparr> \<and>
   statCollectionPeriodSecs = 60 \<and> keepStatsForSecs = 86400"
  by (simp add: NewCollector_def Init_def statCollectionPeriodSecs_def keepStatsForSecs_def)

text \<open>
  C3 as stated fails for the share difficulty zero: the collector is constructed, and the
  loop starts on it.
\<close>

theorem new_collector_counterexample:
  "NewCollector 0 = Some \<lparr>PendingStats = [], ShareDifficulty = 0, ContextDone = False\<rparr> \<and>
   NewCollector 0 \<noteq> None \<and>
   at_pc (Run_start ex_env \<lparr>PendingStats = [], ShareDifficulty = 0, ContextDone = False\<rparr>) = Poll"
  by (simp add: NewCollector_def Init_def Run_start_def)

text \<open>
  C4 (amended): when the write or the pruning fails during a flush, the failure is dropped
  without a log entry and without retry, and the loop goes on: whatever the outcomes of the
  database calls, a run has the same log, stands at the same place with the same collector,
  marker and batch, has started the same flushes and has made the same database calls, two
  for every flush.
\<close>

theorem persistence_failures_are_dropped:
  "logs (execute (e\<lparr>db_fails := f\<rparr>) c evs) = logs (execute e c evs) \<and>
   at_pc (execute (e\<lparr>db_fails := f\<rparr>) c evs) = at_pc (execute e c evs) \<and>
   collector (execute (e\<lparr>db_fails := f\<rparr>) c evs) = collector (execute e c evs) \<and>
   prevCollectionTimestamp (execute (e\<lparr>db_fails := f\<rparr>) c evs) =
     prevCollectionTimestamp (execute e c evs) \<and>
   batch (execute (e\<lparr>db_fails := f\<rparr>) c evs) = batch (execute e c evs) \<and>
   flushed (execute (e\<lparr>db_fails := f\<rparr>) c evs) = flushed (execute e c evs) \<and>
   map call_made (db_calls (execute (e\<lparr>db_fails := f\<rparr>) c evs)) =
     map call_made (db_calls (execute e c evs)) \<and>
   length (db_calls (execute (e\<lparr>db_fails := f\<rparr>) c evs)) +
     pending_calls (execute (e\<lparr>db_fails := f\<rparr>) c evs) =
     2 * length (flushed (execute (e\<lparr>db_fails := f\<rparr>) c evs))"
proof -
  let ?s' = "execute (e\<lparr>db_fails := f\<rparr>) c evs" and ?s = "execute e c evs"
  have eq: "?s' = ?s\<lparr>db_calls := db_calls ?s'\<rparr>"
    and calls: "map call_made (db_calls ?s') = map call_made (db_calls ?s)"
    using same_run [where e = e and f = f and c = c and evs = evs] by blast+
  have "logs ?s' = logs ?s" "at_pc ?s' = at_pc ?s" "collector ?s' = collector ?s"
    "prevCollectionTimestamp ?s' = prevCollectionTimestamp ?s" "batch ?s' = batch ?s"
    "flushed ?s' = flushed ?s"
    by (subst eq, simp)+
  with calls execute_db_calls [of "e\<lparr>db_fails := f\<rparr>" c evs] show ?thesis by blast
qed

text \<open>
  C4 as stated fails on the log: when both database calls of a flush fail, the log of the
  run is the log of the run in which they succeed, with the entry of a successful
  collection and no trace of the failure. The total in the entry is the \<^verbatim>\<open>float64\<close> nearest to
  10000 / 60.
\<close>

theorem persistence_failure_not_logged_counterexample:
  "db_calls (execute failing_env ex_collector
      [Call (RecordCall ''rig1'' rig1), Flusher, Flusher, Flusher, Flusher, Flusher, Flusher]) =
     [Write [(make_stat 1000 ''rig1'' rig1, 1020)] True, PruneStats 86400 True] \<and>
   logs (execute failing_env ex_collector
      [Call (RecordCall ''rig1'' rig1), Flusher, Flusher, Flusher, Flusher, Flusher, Flusher]) =
     [Started, Collected (5864062014805333 / 35184372088832)] \<and>
   logs (execute ex_env ex_collector
      [Call (RecordCall ''rig1'' rig1), Flusher, Flusher, Flusher, Flusher, Flusher, Flusher]) =
     [Started, Collected (5864062014805333 / 35184372088832)]"
  by (simp add: run_simps ex_simps failing_env_def float_simps)

text \<open>
  C5 (the code fails it): line 96 reads the clock anew for every row instead of taking the
  boundary that line 84 has put into \<^verbatim>\<open>currentCollectionTimestamp\<close>. When the run is held up
  between the poll and the range loop, the flush that was triggered for the boundary 1140
  builds its first row at 1199 and stamps it 1140, and builds its second row at 1200 and
  stamps it 1200: the rows of one batch differ, and one is not on the boundary crossed.
\<close>

theorem rows_stamped_past_the_boundary:
  "prevCollectionTimestamp (execute late_env ex_collector
      [Call (RecordCall ''rig1'' rig1), Call (RecordCall ''rig2'' rig2), Flusher]) = 1140 \<and>
   flushed (execute late_env ex_collector
      [Call (RecordCall ''rig1'' rig1), Call (RecordCall ''rig2'' rig2),
       Flusher, Flusher, Flusher, Flusher]) = [1140] \<and>
   db_calls (execute late_env ex_collector
      [Call (RecordCall ''rig1'' rig1), Call (RecordCall ''rig2'' rig2),
       Flusher, Flusher, Flusher, Flusher]) =
     [Write [(make_stat 1000 ''rig1'' rig1, 1140), (make_stat 1000 ''rig2'' rig2, 1200)] False,
      PruneStats 86400 False]"
  by (simp add: run_simps late_simps)

text \<open>
  C8 (the code fails it): a worker whose call of \<^verbatim>\<open>Record\<close> runs between the range loop and
  \<^verbatim>\<open>Clear\<close> has an entry in the accumulator during the period and gets no row. After the
  loop has filled the batch with the row of rig1, rig2 records and the accumulator holds
  both workers; \<^verbatim>\<open>Clear\<close> then erases both, the flush writes the one row of rig1, the next
  flush writes an empty batch, and nothing is left pending: two workers, one row.
\<close>

theorem worker_recorded_before_clear_gets_no_row:
  "PendingStats (collector (execute ex_env ex_collector gap_schedule)) =
     [(''rig1'', rig1), (''rig2'', rig2)] \<and>
   batch (execute ex_env ex_collector gap_schedule) = [(make_stat 1000 ''rig1'' rig1, 1020)] \<and>
   db_calls (execute ex_env ex_collector erased_schedule) =
     [Write [(make_stat 1000 ''rig1'' rig1, 1020)] False, PruneStats 86400 False,
      Write [] False, PruneStats 86400 False] \<and>
   PendingStats (collector (execute ex_env ex_collector erased_schedule)) = [] \<and>
   at_pc (execute ex_env ex_collector erased_schedule) = Poll"
  by (simp add: run_simps ex_simps rig2_def gap_schedule_def erased_schedule_def)

text \<open>
  C9: \<^verbatim>\<open>Stop\<close> signals a cancellation that the loop observes only at the head of an
  iteration. A second \<^verbatim>\<open>Stop\<close> changes nothing. Outside the head of the loop a step does the
  same whether \<^verbatim>\<open>Stop\<close> was called or not. When \<^verbatim>\<open>Stop\<close> is called while the loop is idle, at
  the head or in its sleep, the loop has returned after two of its steps at most, whatever
  the producers do, having slept one second at most and without another flush or database
  call. A flush that has begun makes its two database calls and comes back to the head of
  the loop, whatever calls, \<^verbatim>\<open>Stop\<close> included, happen meanwhile. Once returned, the loop does
  nothing more.
\<close>

theorem stop_observed_between_polls:
  "Stop (Stop c) = Stop c \<and> ContextDone (Stop c) \<and>
   (at_pc s \<noteq> Poll \<longrightarrow>
      flusher e (s\<lparr>collector := Stop (collector s)\<rparr>) =
        (flusher e s)\<lparr>collector := Stop (collector (flusher e s))\<rparr>) \<and>
   (at_pc s \<in> {Poll, Sleeping} \<longrightarrow>
      at_pc (foldl (step e) s (Call StopCall # map Call ks1 @ Flusher # map Call ks2 @ [Flusher])) =
        Returned \<and>
      slept (foldl (step e) s (Call StopCall # map Call ks1 @ Flusher # map Call ks2 @ [Flusher]))
        \<le> slept s + 1 \<and>
      db_calls (foldl (step e) s (Call StopCall # map Call ks1 @ Flusher # map Call ks2 @ [Flusher])) =
        db_calls s \<and>
      flushed (foldl (step e) s (Call StopCall # map Call ks1 @ Flusher # map Call ks2 @ [Flusher])) =
        flushed s) \<and>
   (at_pc s = Collecting \<longrightarrow>
      at_pc (foldl (step e) s (Flusher # map Call ks1 @ Flusher # map Call ks2 @ [Flusher])) = Poll \<and>
      length (db_calls (foldl (step e) s (Flusher # map Call ks1 @ Flusher # map Call ks2 @ [Flusher]))) =
        length (db_calls s) + 2) \<and>
   (at_pc s = Returned \<longrightarrow> flusher e s = s)"
proof -
  have "Stop (Stop c) = Stop c" "ContextDone (Stop c)" by (simp_all add: Stop_def)
  moreover note stop_commutes [of s e] stop_then_idle [of s e ks1 ks2]
  moreover have "at_pc s = Collecting \<longrightarrow>
      at_pc (foldl (step e) s (Flusher # map Call ks1 @ Flusher # map Call ks2 @ [Flusher])) = Poll \<and>
      length (db_calls (foldl (step e) s (Flusher # map Call ks1 @ Flusher # map Call ks2 @ [Flusher]))) =
        length (db_calls s) + 2"
  proof
    assume c: "at_pc s = Collecting"
    show "at_pc (foldl (step e) s (Flusher # map Call ks1 @ Flusher # map Call ks2 @ [Flusher])) = Poll \<and>
      length (db_calls (foldl (step e) s (Flusher # map Call ks1 @ Flusher # map Call ks2 @ [Flusher]))) =
        length (db_calls s) + 2"
      unfolding flush_steps [OF c] by simp
  qed
  moreover have "at_pc s = Returned \<longrightarrow> flusher e s = s" by (simp add: flusher_def)
  ultimately show ?thesis by blast
qed

theorem stop_observed_between_polls_witness:
  "at_pc (execute ex_env ex_collector [Flusher]) \<in> {Poll, Sleeping} \<and>
   at_pc (execute ex_env ex_collector [Flusher]) \<noteq> Poll \<and>
   at_pc (foldl (step ex_env) (execute ex_env ex_collector [Flusher])
      (Call StopCall # map Call [] @ Flusher # map Call [] @ [Flusher])) = Returned \<and>
   at_pc (execute ex_env ex_collector [Flusher, Flusher, Flusher]) = Collecting \<and>
   at_pc (foldl (step ex_env) (execute ex_env ex_collector [Flusher, Flusher, Flusher])
      (Flusher # map Call [StopCall] @ Flusher # map Call [StopCall] @ [Flusher])) = Poll \<and>
   at_pc (execute ex_env ex_collector [Call StopCall, Flusher]) = Returned \<and>
   flusher ex_env (execute ex_env ex_collector [Call StopCall, Flusher]) =
     execute ex_env ex_collector [Call StopCall, Flusher]"
proof -
  have a: "at_pc (execute ex_env ex_collector [Flusher]) = Sleeping"
    and b: "at_pc (execute ex_env ex_collector [Flusher, Flusher, Flusher]) = Collecting"
    and c: "at_pc (execute ex_env ex_collector [Call StopCall, Flusher]) = Returned"
    by (simp_all add: run_simps ex_simps)
  have idle: "at_pc (execute ex_env ex_collector [Flusher]) \<in> {Poll, Sleeping}"
    and away: "at_pc (execute ex_env ex_collector [Flusher]) \<noteq> Poll"
    using a by simp_all
  have r1: "at_pc (foldl (step ex_env) (execute ex_env ex_collector [Flusher])
      (Call StopCall # map Call [] @ Flusher # map Call [] @ [Flusher])) = Returned"
    using stop_observed_between_polls [of ex_collector "execute ex_env ex_collector [Flusher]"
        ex_env "[]" "[]"] idle by blast
  have r2: "at_pc (foldl (step ex_env) (execute ex_env ex_collector [Flusher, Flusher, Flusher])
      (Flusher # map Call [StopCall] @ Flusher # map Call [StopCall] @ [Flusher])) = Poll"
    using stop_observed_between_polls [of ex_collector
        "execute ex_env ex_collector [Flusher, Flusher, Flusher]" ex_env "[StopCall]" "[StopCall]"] b
    by blast
  have r3: "flusher ex_env (execute ex_env ex_collector [Call StopCall, Flusher]) =
     execute ex_env ex_collector [Call StopCall, Flusher]"
    using stop_observed_between_polls [of ex_collector
        "execute ex_env ex_collector [Call StopCall, Flusher]" ex_env "[]" "[]"] c
    by blast
  show ?thesis using idle away r1 b r2 c r3 by blast
qed

text \<open>
  C10: the aggregate hashrate in the log entry of a flush is the sum, over the workers of
  the snapshot, of ValidShares times ShareDifficulty divided by the period length, and the
  running total is reset to zero after the entry, so that no entry includes data of an
  earlier period. In every run, when the loop is about to fill a batch, the flush appends
  to the log exactly one entry; its number is the \<^verbatim>\<open>float64\<close> sum, taken in range order from
  zero, of the \<^verbatim>\<open>float64\<close> quotients by 60 of the \<^verbatim>\<open>float64\<close> products, and it lies within
  the factors of as many roundings as there are workers, plus four, of the exact sum. The
  flush leaves the total at zero and the accumulator with nothing but what was recorded
  after \<^verbatim>\<open>Clear\<close>; and at every moment of every run the total is zero unless a flush stands
  between its range loop and its log entry.
\<close>

theorem logged_total_is_sum:
  assumes "at_pc (execute e c evs) = Collecting"
  shows "\<exists>x.
     logs (execute e c (evs @ Flusher # map Call ks1 @ Flusher # map Call ks2 @ [Flusher])) =
       logs (execute e c evs) @ [Collected x] \<and>
     x = f64_sum (map (\<lambda>(w, p). worker_hashrate (ShareDifficulty c) p)
            (PendingStats (collector (execute e c evs)))) \<and>
     (\<Sum>(w, p)\<leftarrow>PendingStats (collector (execute e c evs)).
        real (ValidShares p) * real (unat (ShareDifficulty c)) / 60) *
       round_lo ^ (4 + length (PendingStats (collector (execute e c evs)))) \<le> x \<and>
     x \<le> (\<Sum>(w, p)\<leftarrow>PendingStats (collector (execute e c evs)).
        real (ValidShares p) * real (unat (ShareDifficulty c)) / 60) *
       round_hi ^ (4 + length (PendingStats (collector (execute e c evs)))) \<and>
     totalCollectedHashrate
       (execute e c (evs @ Flusher # map Call ks1 @ Flusher # map Call ks2 @ [Flusher])) = 0 \<and>
     PendingStats (collector
       (execute e c (evs @ Flusher # map Call ks1 @ Flusher # map Call ks2 @ [Flusher]))) =
       PendingStats (foldl apply_call (Init (collector (execute e c evs))) ks2) \<and>
     (at_pc (execute e c evs') \<in> {Clearing, Persisting} \<or>
      totalCollectedHashrate (execute e c evs') = 0)"
proof -
  let ?ps = "PendingStats (collector (execute e c evs))"
  let ?x = "f64_sum (map (\<lambda>(w, p). worker_hashrate (ShareDifficulty c) p) ?ps)"
  have z: "totalCollectedHashrate (execute e c evs) = 0"
    using execute_total_zero [of e c evs] assms by simp
  have log: "logs (execute e c (evs @ Flusher # map Call ks1 @ Flusher # map Call ks2 @ [Flusher])) =
       logs (execute e c evs) @ [Collected ?x]"
    and zero: "totalCollectedHashrate
       (execute e c (evs @ Flusher # map Call ks1 @ Flusher # map Call ks2 @ [Flusher])) = 0"
    and coll: "collector
       (execute e c (evs @ Flusher # map Call ks1 @ Flusher # map Call ks2 @ [Flusher])) =
       foldl apply_call (Clear (foldl apply_call (collector (execute e c evs)) ks1)) ks2"
    unfolding execute_append [of e c evs] flush_steps [OF assms]
    by (simp_all add: z execute_difficulty f64_sum_def)
  have "PendingStats (Clear (foldl apply_call (collector (execute e c evs)) ks1)) =
      PendingStats (Init (collector (execute e c evs)))"
    by (simp add: Clear_empty Init_def)
  then have pend: "PendingStats (collector
       (execute e c (evs @ Flusher # map Call ks1 @ Flusher # map Call ks2 @ [Flusher]))) =
       PendingStats (foldl apply_call (Init (collector (execute e c evs))) ks2)"
    unfolding coll by (rule calls_pending_cong)
  have "(0 + (\<Sum>(w, p)\<leftarrow>?ps. real (ValidShares p) * real (unat (ShareDifficulty c)) / 60)) *
        round_lo ^ (4 + length ?ps) \<le>
        foldl fadd 0 (map (\<lambda>(w, p). worker_hashrate (ShareDifficulty c) p) ?ps) \<and>
      foldl fadd 0 (map (\<lambda>(w, p). worker_hashrate (ShareDifficulty c) p) ?ps) \<le>
        (0 + (\<Sum>(w, p)\<leftarrow>?ps. real (ValidShares p) * real (unat (ShareDifficulty c)) / 60)) *
        round_hi ^ (4 + length ?ps)"
    by (rule f64_sum_between) simp_all
  then have near: "(\<Sum>(w, p)\<leftarrow>?ps. real (ValidShares p) * real (unat (ShareDifficulty c)) / 60) *
        round_lo ^ (4 + length ?ps) \<le> ?x"
      "?x \<le> (\<Sum>(w, p)\<leftarrow>?ps. real (ValidShares p) * real (unat (ShareDifficulty c)) / 60) *
        round_hi ^ (4 + length ?ps)"
    unfolding f64_sum_def by (simp_all del: of_nat_unat)
  show ?thesis
    by (intro exI [of _ ?x] conjI log refl near zero pend execute_total_zero)
qed

theorem logged_total_is_sum_witness:
  "at_pc (execute ex_env ex_collector [Call (RecordCall ''rig1'' rig1), Call (RecordCall ''rig2'' rig2), Flusher, Flusher, Flusher]) = Collecting \<and>
   logs (execute ex_env ex_collector
       ([Call (RecordCall ''rig1'' rig1), Call (RecordCall ''rig2'' rig2), Flusher, Flusher, Flusher] @
        Flusher # map Call [] @ Flusher # map Call [] @ [Flusher])) =
     [Started, Collected (7623280619246933 / 35184372088832)] \<and>
   worker_hashrate 1000 rig1 = 5864062014805333 / 35184372088832 \<and>
   worker_hashrate 1000 rig2 = 50"
proof -
  have h: "at_pc (execute ex_env ex_collector [Call (RecordCall ''rig1'' rig1), Call (RecordCall ''rig2'' rig2), Flusher, Flusher, Flusher]) = Collecting"
    by (simp add: run_simps ex_simps)
  have p: "PendingStats (collector (execute ex_env ex_collector [Call (RecordCall ''rig1'' rig1), Call (RecordCall ''rig2'' rig2), Flusher, Flusher, Flusher])) =
      [(''rig1'', rig1), (''rig2'', rig2)]"
    "logs (execute ex_env ex_collector [Call (RecordCall ''rig1'' rig1), Call (RecordCall ''rig2'' rig2), Flusher, Flusher, Flusher]) = [Started]"
    by (simp_all add: run_simps ex_simps)
  have w1: "worker_hashrate 1000 rig1 = 5864062014805333 / 35184372088832"
    and w2: "worker_hashrate 1000 rig2 = 50"
    by (simp_all add: worker_hashrate_def fmul_def fdiv_def f64_of_nat_def rig1_def rig2_def
        statCollectionPeriodSecs_def round64_hashrate_rig1)
  have s: "f64_sum [5864062014805333 / 35184372088832, 50] = 7623280619246933 / 35184372088832"
    by code_simp
  obtain x where x: "logs (execute ex_env ex_collector
       ([Call (RecordCall ''rig1'' rig1), Call (RecordCall ''rig2'' rig2), Flusher, Flusher, Flusher] @
        Flusher # map Call [] @ Flusher # map Call [] @ [Flusher])) =
     logs (execute ex_env ex_collector [Call (RecordCall ''rig1'' rig1), Call (RecordCall ''rig2'' rig2), Flusher, Flusher, Flusher]) @ [Collected x]"
    "x = f64_sum (map (\<lambda>(w, p). worker_hashrate (ShareDifficulty ex_collector) p)
            (PendingStats (collector (execute ex_env ex_collector [Call (RecordCall ''rig1'' rig1), Call (RecordCall ''rig2'' rig2), Flusher, Flusher, Flusher]))))"
    using logged_total_is_sum [OF h, of "[]" "[]" "[]"] by blast
  have "x = 7623280619246933 / 35184372088832"
    unfolding x(2) p by (simp add: ex_collector_def w1 w2 s)
  then show ?thesis using h x(1) w1 w2 unfolding p by simp
qed


end
